theory Spec2Isabelle
  imports Main "HOL-Library.Word" "HOL-Library.Signed_Division"
begin

section \<open>Machine integers\<close>

text \<open>
  The scheduler of \<^verbatim>\<open>iter.c\<close> computes on the C types \<^verbatim>\<open>long\<close> and
  \<^verbatim>\<open>unsigned long\<close>, both 64 bits wide on the LP64 targets the library is built for.
  Both are modelled by the same type of 64-bit words: a conversion between them keeps the
  bit pattern and is the identity here. \<open>+\<close>, \<open>-\<close> and \<open>*\<close> wrap around
  (two's complement, also where C leaves a signed overflow undefined); \<open><\<close> and
  \<open>\<le>\<close> compare unsigned values, \<open><s\<close> and \<open>\<le>s\<close> signed ones.
\<close>

type_synonym long = "64 word"
type_synonym ulong = "64 word"

definition LONG_MIN :: long where
  "LONG_MIN = - (2 ^ 63)"

text \<open>
  A division traps (SIGFPE) when the divisor is zero, and a signed one also on
  \<^verbatim>\<open>LONG_MIN / -1\<close>; an index past the end of an array is undefined in C. Both
  are values of the model.
\<close>

datatype fault = Divide_By_Zero | Divide_Overflow | Out_Of_Bounds

text \<open>Signed division of C: the quotient is truncated towards zero.\<close>

definition long_div :: "long \<Rightarrow> long \<Rightarrow> fault + long" where
  "long_div a b =
     (if b = 0 then Inl Divide_By_Zero
      else if a = LONG_MIN \<and> b = - 1 then Inl Divide_Overflow
      else Inr (word_of_int (sint a sdiv sint b)))"

definition ulong_div :: "ulong \<Rightarrow> ulong \<Rightarrow> fault + ulong" where
  "ulong_div a b = (if b = 0 then Inl Divide_By_Zero else Inr (a div b))"

section \<open>Data model\<close>

text \<open>
  The declarations of \<^verbatim>\<open>libgomp.h\<close> are reconstructed from the uses made of them in
  \<^verbatim>\<open>iter.c\<close>. Field names that are keywords of the proof language carry a prefix
  (\<^verbatim>\<open>ws->next\<close> is \<open>ws_next\<close>, \<^verbatim>\<open>local_queue->begin\<close> is \<open>q_begin\<close>).
\<close>

record gomp_ws_adaptive_chunk =
  q_begin :: long
  q_end :: long
  nb_exec :: long
  is_init :: bool

text \<open>
  \<open>adaptive_chunks\<close> is the array \<^verbatim>\<open>ws->adaptive_chunks\<close>, one entry for each
  thread of the team; \<open>ws_mode\<close> is true when \<^verbatim>\<open>ws->mode\<close> is nonzero.
\<close>

record gomp_work_share =
  ws_chunk_size :: long
  ws_end :: long
  ws_incr :: long
  ws_next :: long
  ws_mode :: bool
  start_t0 :: long
  adaptive_chunks :: "gomp_ws_adaptive_chunk list"
  nb_iterations_left :: long

record gomp_team =
  nthreads :: ulong

text \<open>
  The part of \<^verbatim>\<open>thr->ts\<close> the iterators use. \<open>team_id\<close> holds the value
  \<^verbatim>\<open>thr->ts.team_id\<close> has once converted to \<^verbatim>\<open>unsigned long\<close>;
  \<open>static_trip\<close> is compared with \<open>-1\<close> and \<open>0\<close> as a signed value.
\<close>

record gomp_team_state =
  team :: "gomp_team option"
  team_id :: ulong
  static_trip :: long

text \<open>\<^verbatim>\<open>team ? team->nthreads : 1\<close>\<close>

definition team_nthreads :: "gomp_team option \<Rightarrow> ulong" where
  "team_nthreads t = (case t of Some tm \<Rightarrow> nthreads tm | None \<Rightarrow> 1)"

text \<open>
  What a call stores through \<^verbatim>\<open>pstart\<close> and \<^verbatim>\<open>pend\<close>: \<open>None\<close> when the
  call writes to neither, \<open>Some (s, e)\<close> when it stores \<open>s\<close> and \<open>e\<close>.
\<close>

type_synonym range_out = "(long \<times> long) option"

section \<open>Static schedule\<close>

definition gomp_iter_static_next ::
  "gomp_team_state \<Rightarrow> gomp_work_share \<Rightarrow> fault + (int \<times> gomp_team_state \<times> range_out)" where
  "gomp_iter_static_next ts ws =
     (let nthr = team_nthreads (team ts) in
      if static_trip ts = - 1 then Inr (- 1, ts, None)
      else if nthr = 1 then
        Inr (if ws_next ws = ws_end ws then 1 else 0,
             ts\<lparr>static_trip := - 1\<rparr>,
             Some (ws_next ws, ws_end ws))
      else if ws_chunk_size ws = 0 then
        (if 0 <s static_trip ts then Inr (1, ts, None)
         else
           let s = ws_incr ws + (if 0 <s ws_incr ws then - 1 else 1) in
           case long_div (ws_end ws - ws_next ws + s) (ws_incr ws) of
             Inl f \<Rightarrow> Inl f
           | Inr n \<Rightarrow>
               let i = team_id ts in
               (case ulong_div n nthr of
                  Inl f \<Rightarrow> Inl f
                | Inr q0 \<Rightarrow>
                    let q = q0 + (if q0 * nthr \<noteq> n then 1 else 0);
                        s0 = q * i;
                        e0 = s0 + q;
                        e0 = (if e0 > n then n else e0)
                    in if s0 \<ge> e0 then Inr (1, ts\<lparr>static_trip := 1\<rparr>, None)
                       else
                         let s = s0 * ws_incr ws + ws_next ws;
                             e = e0 * ws_incr ws + ws_next ws
                         in Inr (0,
                                 ts\<lparr>static_trip := (if e0 = n then - 1 else 1)\<rparr>,
                                 Some (s, e))))
      else
        (let s = ws_incr ws + (if 0 <s ws_incr ws then - 1 else 1) in
         case long_div (ws_end ws - ws_next ws + s) (ws_incr ws) of
           Inl f \<Rightarrow> Inl f
         | Inr n \<Rightarrow>
             let i = team_id ts;
                 c = ws_chunk_size ws;
                 s0 = (static_trip ts * nthr + i) * c;
                 e0 = s0 + c
             in if s0 \<ge> n then Inr (1, ts, None)
                else
                  let e0 = (if e0 > n then n else e0);
                      s = s0 * ws_incr ws + ws_next ws;
                      e = e0 * ws_incr ws + ws_next ws
                  in Inr (0,
                          ts\<lparr>static_trip := (if e0 = n then - 1 else static_trip ts + 1)\<rparr>,
                          Some (s, e))))"

text \<open>
  Two values \<open>gomp_iter_static_next\<close> computes in a team of more than one thread:
  the total number of iterations \<^verbatim>\<open>n\<close>, and the zero-based end \<^verbatim>\<open>e0\<close> of the
  thread's range once clamped to \<^verbatim>\<open>n\<close>. The range that ends at \<^verbatim>\<open>e0 == n\<close> is the
  absolutely last one of the loop.
\<close>

definition static_n :: "gomp_work_share \<Rightarrow> fault + ulong" where
  "static_n ws =
     long_div (ws_end ws - ws_next ws + (ws_incr ws + (if 0 <s ws_incr ws then - 1 else 1)))
       (ws_incr ws)"

definition static_e0 :: "gomp_team_state \<Rightarrow> gomp_work_share \<Rightarrow> ulong \<Rightarrow> ulong" where
  "static_e0 ts ws n =
     (let nthr = team_nthreads (team ts);
          i = team_id ts
      in if ws_chunk_size ws = 0 then
           let q0 = n div nthr;
               q = q0 + (if q0 * nthr \<noteq> n then 1 else 0);
               s0 = q * i;
               e0 = s0 + q
           in if e0 > n then n else e0
         else
           let c = ws_chunk_size ws;
               s0 = (static_trip ts * nthr + i) * c;
               e0 = s0 + c
           in if e0 > n then n else e0)"

section \<open>Dynamic schedule\<close>

text \<open>The version called with \<^verbatim>\<open>ws->lock\<close> held.\<close>

definition gomp_iter_dynamic_next_locked ::
  "gomp_work_share \<Rightarrow> bool \<times> gomp_work_share \<times> range_out" where
  "gomp_iter_dynamic_next_locked ws =
     (let start = ws_next ws in
      if start = ws_end ws then (False, ws, None)
      else
        let chunk = ws_chunk_size ws;
            left = ws_end ws - start;
            chunk = (if ws_incr ws <s 0
                     then (if chunk <s left then left else chunk)
                     else (if left <s chunk then left else chunk));
            end' = start + chunk
        in (True, ws\<lparr>ws_next := end'\<rparr>, Some (start, end')))"

text \<open>
  The lock-free version. With \<^verbatim>\<open>ws->mode\<close> set it is one
  \<^verbatim>\<open>__sync_fetch_and_add\<close> on \<^verbatim>\<open>ws->next\<close>, which is atomic: the model reads
  and advances the cursor in one step.

  Otherwise it is a compare-and-swap loop, which other threads can make fail. The list
  \<open>env\<close> holds what the successive \<^verbatim>\<open>__sync_val_compare_and_swap\<close> attempts find
  in \<^verbatim>\<open>ws->next\<close> after another thread has stored there; once the list is used up,
  no other thread interferes and the attempt finds the value this thread has read. The
  local \<^verbatim>\<open>chunk\<close> keeps its clamped value from one attempt to the next, as in the
  source. The work share a call returns holds the cursor as the last attempt left it.
\<close>

fun dynamic_cas_loop ::
  "long \<Rightarrow> long \<Rightarrow> long \<Rightarrow> long list \<Rightarrow> gomp_work_share \<Rightarrow> long
     \<Rightarrow> bool \<times> gomp_work_share \<times> range_out" where
  "dynamic_cas_loop end' incr chunk [] ws start =
     (let left = end' - start in
      if start = end' then (False, ws\<lparr>ws_next := start\<rparr>, None)
      else
        let chunk = (if incr <s 0
                     then (if chunk <s left then left else chunk)
                     else (if left <s chunk then left else chunk));
            nend = start + chunk
        in (True, ws\<lparr>ws_next := nend\<rparr>, Some (start, nend)))"
| "dynamic_cas_loop end' incr chunk (tmp # env) ws start =
     (let left = end' - start in
      if start = end' then (False, ws\<lparr>ws_next := start\<rparr>, None)
      else
        let chunk = (if incr <s 0
                     then (if chunk <s left then left else chunk)
                     else (if left <s chunk then left else chunk));
            nend = start + chunk
        in if tmp = start then (True, ws\<lparr>ws_next := nend\<rparr>, Some (start, nend))
           else dynamic_cas_loop end' incr chunk env ws tmp)"

definition gomp_iter_dynamic_next ::
  "long list \<Rightarrow> gomp_work_share \<Rightarrow> bool \<times> gomp_work_share \<times> range_out" where
  "gomp_iter_dynamic_next env ws =
     (let end' = ws_end ws;
          incr = ws_incr ws;
          chunk = ws_chunk_size ws
      in if ws_mode ws then
           let tmp = ws_next ws;
               ws' = ws\<lparr>ws_next := tmp + chunk\<rparr>
           in if 0 <s incr then
                (if end' \<le>s tmp then (False, ws', None)
                 else
                   let nend = tmp + chunk;
                       nend = (if end' <s nend then end' else nend)
                   in (True, ws', Some (tmp, nend)))
              else
                (if tmp \<le>s end' then (False, ws', None)
                 else
                   let nend = tmp + chunk;
                       nend = (if nend <s end' then end' else nend)
                   in (True, ws', Some (tmp, nend)))
         else dynamic_cas_loop end' incr chunk env ws (ws_next ws))"

section \<open>Guided schedule\<close>

text \<open>
  The size of a guided claim, shared by the locked and the lock-free version: from the
  cursor value \<open>start\<close>, the value to store in \<^verbatim>\<open>ws->next\<close>.
\<close>

definition guided_nend :: "ulong \<Rightarrow> long \<Rightarrow> long \<Rightarrow> ulong \<Rightarrow> long \<Rightarrow> fault + long" where
  "guided_nend nthr end' incr chunk_size start =
     (case long_div (end' - start) incr of
        Inl f \<Rightarrow> Inl f
      | Inr n \<Rightarrow>
          (case ulong_div (n + nthr - 1) nthr of
             Inl f \<Rightarrow> Inl f
           | Inr q0 \<Rightarrow>
               let q = (if q0 < chunk_size then chunk_size else q0)
               in Inr (if q \<le> n then start + q * incr else end')))"

text \<open>The version called with the work share lock held.\<close>

definition gomp_iter_guided_next_locked ::
  "gomp_team_state \<Rightarrow> gomp_work_share \<Rightarrow> fault + (bool \<times> gomp_work_share \<times> range_out)" where
  "gomp_iter_guided_next_locked ts ws =
     (let nthr = team_nthreads (team ts) in
      if ws_next ws = ws_end ws then Inr (False, ws, None)
      else
        let start = ws_next ws in
        case guided_nend nthr (ws_end ws) (ws_incr ws) (ws_chunk_size ws) start of
          Inl f \<Rightarrow> Inl f
        | Inr end' \<Rightarrow> Inr (True, ws\<lparr>ws_next := end'\<rparr>, Some (start, end')))"

text \<open>
  The lock-free version: the same claim in a compare-and-swap loop, with \<open>env\<close> as
  for \<open>gomp_iter_dynamic_next\<close>.
\<close>

fun guided_cas_loop ::
  "ulong \<Rightarrow> long \<Rightarrow> long \<Rightarrow> ulong \<Rightarrow> long list \<Rightarrow> gomp_work_share \<Rightarrow> long
     \<Rightarrow> fault + (bool \<times> gomp_work_share \<times> range_out)" where
  "guided_cas_loop nthr end' incr chunk_size [] ws start =
     (if start = end' then Inr (False, ws\<lparr>ws_next := start\<rparr>, None)
      else
        case guided_nend nthr end' incr chunk_size start of
          Inl f \<Rightarrow> Inl f
        | Inr nend \<Rightarrow> Inr (True, ws\<lparr>ws_next := nend\<rparr>, Some (start, nend)))"
| "guided_cas_loop nthr end' incr chunk_size (tmp # env) ws start =
     (if start = end' then Inr (False, ws\<lparr>ws_next := start\<rparr>, None)
      else
        case guided_nend nthr end' incr chunk_size start of
          Inl f \<Rightarrow> Inl f
        | Inr nend \<Rightarrow>
            if tmp = start then Inr (True, ws\<lparr>ws_next := nend\<rparr>, Some (start, nend))
            else guided_cas_loop nthr end' incr chunk_size env ws tmp)"

definition gomp_iter_guided_next ::
  "long list \<Rightarrow> gomp_team_state \<Rightarrow> gomp_work_share
     \<Rightarrow> fault + (bool \<times> gomp_work_share \<times> range_out)" where
  "gomp_iter_guided_next env ts ws =
     guided_cas_loop (team_nthreads (team ts)) (ws_end ws) (ws_incr ws) (ws_chunk_size ws)
       env ws (ws_next ws)"

section \<open>Adaptive schedule\<close>

text \<open>
  The owner's side of the deque, run without a thief at work on the same entry:
  \<^verbatim>\<open>kaapi_atomic_lock\<close>, \<^verbatim>\<open>kaapi_atomic_unlock\<close> and the barrier then change
  nothing the function reads. The locked branch tests \<^verbatim>\<open>size > 0\<close> twice, the second
  time on the size as the first block has clamped it.
\<close>

definition gomp_iter_adaptive_try_local_work ::
  "gomp_ws_adaptive_chunk \<Rightarrow> long \<Rightarrow> bool \<times> gomp_ws_adaptive_chunk \<times> range_out" where
  "gomp_iter_adaptive_try_local_work local_queue chunk_size =
     (let begin' = q_begin local_queue + chunk_size;
          local_queue = local_queue\<lparr>q_begin := begin'\<rparr>
      in if begin' <s q_end local_queue then
           (True,
            local_queue\<lparr>nb_exec := nb_exec local_queue + chunk_size\<rparr>,
            Some (begin' - chunk_size, begin'))
         else
           let begin' = begin' - chunk_size;
               local_queue = local_queue\<lparr>q_begin := begin'\<rparr>;
               size' = q_end local_queue - begin';
               (size', begin', local_queue) =
                 (if 0 <s size' then
                    let size' = (if chunk_size <s size' then chunk_size else size');
                        begin' = begin' + size'
                    in (size', begin', local_queue\<lparr>q_begin := begin'\<rparr>)
                  else (size', begin', local_queue))
           in if 0 <s size' then
                (True,
                 local_queue\<lparr>nb_exec := nb_exec local_queue + size'\<rparr>,
                 Some (begin' - size', begin'))
              else (False, local_queue, None))"

text \<open>
  \<^verbatim>\<open>gomp_loop_adaptive_init_worker\<close> is declared \<^verbatim>\<open>extern\<close> in \<^verbatim>\<open>iter.c\<close> and
  defined elsewhere: the iterator takes it as the parameter \<open>init_worker\<close>, a function
  from the work share, the thread and the three \<^verbatim>\<open>long\<close> arguments to the work share
  it leaves. The block between \<^verbatim>\<open>#if 0\<close> and \<^verbatim>\<open>#endif\<close> is not compiled and has no
  counterpart here.
\<close>

definition gomp_iter_adaptive_next ::
  "(gomp_work_share \<Rightarrow> gomp_team_state \<Rightarrow> long \<Rightarrow> long \<Rightarrow> long \<Rightarrow> gomp_work_share)
     \<Rightarrow> gomp_team_state \<Rightarrow> gomp_work_share
     \<Rightarrow> fault + (bool \<times> gomp_work_share \<times> range_out)" where
  "gomp_iter_adaptive_next init_worker ts ws =
     (let i = unat (team_id ts) in
      if length (adaptive_chunks ws) \<le> i then Inl Out_Of_Bounds
      else
        let ws = (if \<not> is_init (adaptive_chunks ws ! i)
                  then init_worker ws ts (start_t0 ws) (ws_end ws) (ws_incr ws)
                  else ws);
            chunk_size = ws_chunk_size ws
        in if length (adaptive_chunks ws) \<le> i then Inl Out_Of_Bounds
           else
             case gomp_iter_adaptive_try_local_work (adaptive_chunks ws ! i) chunk_size of
               (ret, local_chunk, out) \<Rightarrow>
                 let ws = ws\<lparr>adaptive_chunks := (adaptive_chunks ws)[i := local_chunk]\<rparr>
                 in if ret then Inr (True, ws, out) else Inr (False, ws, None))"

text \<open>
  Modelled from the spec: \<^verbatim>\<open>gomp_loop_adaptive_init_worker\<close> is not part of
  \<^verbatim>\<open>iter.c\<close>; the spec says that it assigns the worker an initial subrange
  \<open>[begin, end)\<close> of the loop space and sets \<open>is_init\<close>. This instance gives the
  calling worker the whole range it is passed.
\<close>

definition init_worker_whole ::
  "gomp_work_share \<Rightarrow> gomp_team_state \<Rightarrow> long \<Rightarrow> long \<Rightarrow> long \<Rightarrow> gomp_work_share" where
  "init_worker_whole ws ts start end' chunk_size =
     ws\<lparr>adaptive_chunks := (adaptive_chunks ws)
          [unat (team_id ts) := \<lparr>q_begin = start, q_end = end', nb_exec = 0, is_init = True\<rparr>]\<rparr>"

section \<open>Sequences of calls\<close>

text \<open>
  A worker calls its iterator again and again. \<open>static_next_calls k\<close> is \<open>k\<close>
  consecutive calls of \<open>gomp_iter_static_next\<close> by one thread: what each call returns
  and stores, and the thread state after the last one.
\<close>

fun static_next_calls ::
  "nat \<Rightarrow> gomp_team_state \<Rightarrow> gomp_work_share
     \<Rightarrow> fault + ((int \<times> range_out) list \<times> gomp_team_state)" where
  "static_next_calls 0 ts ws = Inr ([], ts)"
| "static_next_calls (Suc k) ts ws =
     (case gomp_iter_static_next ts ws of
        Inl f \<Rightarrow> Inl f
      | Inr (r, ts', out) \<Rightarrow>
          (case static_next_calls k ts' ws of
             Inl f \<Rightarrow> Inl f
           | Inr (rs, ts'') \<Rightarrow> Inr ((r, out) # rs, ts'')))"

text \<open>
  \<open>dynamic_next_calls envs\<close> is one call of \<open>gomp_iter_dynamic_next\<close> for each
  element of \<open>envs\<close>, which is what the other threads do to the cursor during that call.
\<close>

fun dynamic_next_calls ::
  "long list list \<Rightarrow> gomp_work_share \<Rightarrow> (bool \<times> range_out) list \<times> gomp_work_share" where
  "dynamic_next_calls [] ws = ([], ws)"
| "dynamic_next_calls (env # envs) ws =
     (case gomp_iter_dynamic_next env ws of
        (r, ws', out) \<Rightarrow>
          (case dynamic_next_calls envs ws' of
             (rs, ws'') \<Rightarrow> ((r, out) # rs, ws'')))"

text \<open>\<open>k\<close> consecutive calls of \<open>gomp_iter_guided_next_locked\<close>.\<close>

fun guided_next_locked_calls ::
  "nat \<Rightarrow> gomp_team_state \<Rightarrow> gomp_work_share
     \<Rightarrow> fault + ((bool \<times> range_out) list \<times> gomp_work_share)" where
  "guided_next_locked_calls 0 ts ws = Inr ([], ws)"
| "guided_next_locked_calls (Suc k) ts ws =
     (case gomp_iter_guided_next_locked ts ws of
        Inl f \<Rightarrow> Inl f
      | Inr (r, ws', out) \<Rightarrow>
          (case guided_next_locked_calls k ts ws' of
             Inl f \<Rightarrow> Inl f
           | Inr (rs, ws'') \<Rightarrow> Inr ((r, out) # rs, ws'')))"

section \<open>Preconditions and well-formed ranges\<close>

text \<open>
  The exit test of the fetch-and-add path of \<open>gomp_iter_dynamic_next\<close>: the cursor is
  at \<^verbatim>\<open>ws->end\<close> or past it, in the direction of \<^verbatim>\<open>ws->incr\<close>.
\<close>

definition dynamic_exhausted :: "gomp_work_share \<Rightarrow> bool" where
  "dynamic_exhausted ws =
     (if 0 <s ws_incr ws then ws_end ws \<le>s ws_next ws else ws_next ws \<le>s ws_end ws)"

text \<open>
  The clamp of \<^verbatim>\<open>chunk\<close> to what is \<^verbatim>\<open>left\<close>, as \<open>gomp_iter_dynamic_next_locked\<close>
  and \<open>dynamic_cas_loop\<close> compute it.
\<close>

definition dynamic_clamp :: "long \<Rightarrow> long \<Rightarrow> long \<Rightarrow> long" where
  "dynamic_clamp incr left chunk =
     (if incr <s 0 then (if chunk <s left then left else chunk)
      else (if left <s chunk then left else chunk))"

text \<open>
  What the loop's initialisation guarantees about a cursor value \<open>start\<close>: the
  increment is not zero, the bounds are not inverted (\<open>start\<close> has not passed
  \<open>end'\<close> in the direction of the increment), and \<^verbatim>\<open>end - start\<close> is representable
  in a \<^verbatim>\<open>long\<close>, so that the subtraction does not overflow.
\<close>

definition cursor_ok :: "long \<Rightarrow> long \<Rightarrow> long \<Rightarrow> bool" where
  "cursor_ok end' incr start \<longleftrightarrow>
     incr \<noteq> 0
     \<and> (if 0 <s incr then start \<le>s end' else end' \<le>s start)
     \<and> - (2 ^ 63) < sint end' - sint start \<and> sint end' - sint start < 2 ^ 63"

text \<open>The same, with \<^verbatim>\<open>end - start\<close> a multiple of the increment.\<close>

definition loop_pre :: "gomp_work_share \<Rightarrow> long \<Rightarrow> bool" where
  "loop_pre ws start \<longleftrightarrow>
     cursor_ok (ws_end ws) (ws_incr ws) start
     \<and> (sint (ws_end ws) - sint start) mod sint (ws_incr ws) = 0"

text \<open>
  The chunk field of the dynamic schedule, which holds the chunk size multiplied by the
  increment: a multiple of the increment that points the same way.
\<close>

definition chunk_pre :: "long \<Rightarrow> long \<Rightarrow> bool" where
  "chunk_pre incr chunk \<longleftrightarrow>
     sint chunk mod sint incr = 0
     \<and> (if 0 <s incr then 0 \<le>s chunk else chunk \<le>s 0)"

text \<open>
  A well-formed range: \<open>pstart \<le> pend\<close> for a positive increment, \<open>pend \<le> pstart\<close>
  for a negative one, and in both cases \<open>pend - pstart\<close> is a multiple of the increment.
\<close>

definition range_ok :: "long \<Rightarrow> long \<Rightarrow> long \<Rightarrow> bool" where
  "range_ok incr pstart pend \<longleftrightarrow>
     (0 <s incr \<longrightarrow> pstart \<le>s pend \<and> (sint pend - sint pstart) mod sint incr = 0)
     \<and> (incr <s 0 \<longrightarrow> pend \<le>s pstart \<and> (sint pend - sint pstart) mod sint incr = 0)"


section \<open>Concrete inputs\<close>

text \<open>
  The work share of a loop from \<open>start\<close> to \<open>end'\<close> by \<open>incr\<close> before any iteration
  is handed out, and the state of thread \<open>i\<close> of a team of \<open>n\<close> threads before its
  first call.
\<close>

definition loop_work_share :: "long \<Rightarrow> long \<Rightarrow> long \<Rightarrow> long \<Rightarrow> gomp_work_share" where
  "loop_work_share start end' incr chunk =
     \<lparr>ws_chunk_size = chunk, ws_end = end', ws_incr = incr, ws_next = start,
      ws_mode = False, start_t0 = start, adaptive_chunks = [], nb_iterations_left = 0\<rparr>"

definition team_thread :: "ulong \<Rightarrow> ulong \<Rightarrow> gomp_team_state" where
  "team_thread n i = \<lparr>team = Some \<lparr>nthreads = n\<rparr>, team_id = i, static_trip = 0\<rparr>"

text \<open>
  An adaptive loop of 20 iterations shared by two workers. Worker 0 has run its ten
  iterations and its deque is empty; worker 1 still holds \<open>[14, 20)\<close>.
\<close>

definition two_worker_share :: gomp_work_share where
  "two_worker_share =
     \<lparr>ws_chunk_size = 2, ws_end = 20, ws_incr = 1, ws_next = 0, ws_mode = False,
      start_t0 = 0,
      adaptive_chunks =
        [\<lparr>q_begin = 10, q_end = 10, nb_exec = 10, is_init = True\<rparr>,
         \<lparr>q_begin = 14, q_end = 20, nb_exec = 4, is_init = True\<rparr>],
      nb_iterations_left = 20\<rparr>"

section \<open>Arithmetic on \<^verbatim>\<open>long\<close> without overflow\<close>

lemma sint_long_range: "- (2 ^ 63) \<le> sint (a :: long) \<and> sint a < 2 ^ 63"
  using sint_ge [of a] sint_lt [of a] by simp

lemma sint_long_of_int:
  "- (2 ^ 63) \<le> k \<Longrightarrow> k < 2 ^ 63 \<Longrightarrow> sint (word_of_int k :: long) = k"
  by (simp add: sint_sbintrunc' signed_take_bit_int_eq_self)

lemma sint_long_add:
  "- (2 ^ 63) \<le> sint a + sint b \<Longrightarrow> sint a + sint b < 2 ^ 63 \<Longrightarrow>
   sint (a + b :: long) = sint a + sint b"
  by (simp add: sint_word_ariths signed_take_bit_int_eq_self)

lemma sint_long_sub:
  "- (2 ^ 63) \<le> sint a - sint b \<Longrightarrow> sint a - sint b < 2 ^ 63 \<Longrightarrow>
   sint (a - b :: long) = sint a - sint b"
  by (simp add: sint_word_ariths signed_take_bit_int_eq_self)

lemma sint_long_mult_uint:
  "- (2 ^ 63) \<le> uint q * sint i \<Longrightarrow> uint q * sint i < 2 ^ 63 \<Longrightarrow>
   sint (q * i :: long) = uint q * sint i"
proof -
  assume r: "- (2 ^ 63) \<le> uint q * sint i" "uint q * sint i < 2 ^ 63"
  have "q * i = word_of_int (uint q * sint i)" by simp
  then show ?thesis using r by (simp only: sint_long_of_int)
qed

lemma uint_long_of_int:
  "0 \<le> k \<Longrightarrow> k < 2 ^ 64 \<Longrightarrow> uint (word_of_int k :: long) = k"
  by (simp add: uint_word_of_int take_bit_int_eq_self)

lemma sint_LONG_MIN: "sint LONG_MIN = - (2 ^ 63)"
  by (simp add: LONG_MIN_def)

lemma uint_nonneg_signed:
  "0 \<le>s (c :: long) \<Longrightarrow> uint c < 2 ^ 63"
proof -
  assume "0 \<le>s c"
  then have nn: "0 \<le> sint c" by (simp add: word_sle_eq)
  have "uint (word_of_int (sint c) :: long) = sint c"
    using nn sint_long_range [of c] by (intro uint_long_of_int) simp_all
  then have "uint c = sint c" by simp
  then show ?thesis using sint_long_range [of c] by simp
qed

lemma long_add_no_wrap:
  "uint (a :: long) < 2 ^ 63 \<Longrightarrow> uint c < 2 ^ 63 \<Longrightarrow> a \<le> a + c"
proof -
  assume r: "uint a < 2 ^ 63" "uint c < 2 ^ 63"
  have "a + c = word_of_int (uint a + uint c)" by simp
  moreover have "0 \<le> uint a + uint c" "uint a + uint c < 2 ^ 64" using r by simp_all
  ultimately have "uint (a + c) = uint a + uint c" by (simp only: uint_long_of_int)
  then show ?thesis by (simp add: word_le_def)
qed

lemma int_div_mult_le: "0 < b \<Longrightarrow> a div b * b \<le> (a::int)"
  using pos_mod_sign [of b a] by (simp flip: minus_mod_eq_div_mult)

lemma int_div_le_self: "0 \<le> a \<Longrightarrow> 0 < b \<Longrightarrow> a div b \<le> (a::int)"
  using zdiv_mono2 [of a 1 b] by simp


section \<open>Exhaustion of the shared cursor\<close>

text \<open>
  Claim C7. When the shared cursor is exhausted (\<^verbatim>\<open>ws->next == ws->end\<close>),
  \<open>gomp_iter_dynamic_next_locked\<close> and \<open>gomp_iter_guided_next_locked\<close> return false,
  leave the work share as it is, \<^verbatim>\<open>ws->next\<close> included, and store nothing through
  \<^verbatim>\<open>pstart\<close> and \<^verbatim>\<open>pend\<close>. The guided version returns before its divisions, so
  it cannot trap either.
\<close>

theorem locked_next_exhausted:
  assumes "ws_next ws = ws_end ws"
  shows "gomp_iter_dynamic_next_locked ws = (False, ws, None)
       \<and> gomp_iter_guided_next_locked ts ws = Inr (False, ws, None)"
  using assms
  by (simp add: gomp_iter_dynamic_next_locked_def gomp_iter_guided_next_locked_def)

theorem locked_next_exhausted_witness:
  "ws_next (loop_work_share 100 100 1 7) = ws_end (loop_work_share 100 100 1 7)
   \<and> gomp_iter_dynamic_next_locked (loop_work_share 100 100 1 7)
       = (False, loop_work_share 100 100 1 7, None)
   \<and> gomp_iter_guided_next_locked (team_thread 4 2) (loop_work_share 100 100 1 7)
       = Inr (False, loop_work_share 100 100 1 7, None)"
  using locked_next_exhausted [of "loop_work_share 100 100 1 7" "team_thread 4 2"]
  by (simp add: loop_work_share_def)

section \<open>Static schedule: return values\<close>

lemma static_next_terminal:
  "static_trip ts = - 1 \<Longrightarrow> gomp_iter_static_next ts ws = Inr (- 1, ts, None)"
  by (simp add: gomp_iter_static_next_def)

lemma static_next_calls_terminal:
  "static_trip ts = - 1 \<Longrightarrow> static_next_calls k ts ws = Inr (replicate k (- 1, None), ts)"
  by (induction k) (simp_all add: static_next_terminal)

lemma static_next_tripped:
  "static_trip ts \<noteq> - 1 \<Longrightarrow> team_nthreads (team ts) \<noteq> 1 \<Longrightarrow> ws_chunk_size ws = 0 \<Longrightarrow>
   0 <s static_trip ts \<Longrightarrow> gomp_iter_static_next ts ws = Inr (1, ts, None)"
  by (simp add: gomp_iter_static_next_def)

lemma static_next_calls_tripped:
  "static_trip ts \<noteq> - 1 \<Longrightarrow> team_nthreads (team ts) \<noteq> 1 \<Longrightarrow> ws_chunk_size ws = 0 \<Longrightarrow>
   0 <s static_trip ts \<Longrightarrow> static_next_calls k ts ws = Inr (replicate k (1, None), ts)"
  by (induction k) (simp_all add: static_next_tripped)

lemmas static_eval =
  gomp_iter_static_next_def team_nthreads_def long_div_def ulong_div_def LONG_MIN_def
  Let_def signed_divide_int_def word_sless_alt word_sle_eq

text \<open>
  Claim C10. In a team of one thread (or with no team), the first call of
  \<open>gomp_iter_static_next\<close> stores \<^verbatim>\<open>ws->next\<close> and \<^verbatim>\<open>ws->end\<close> through
  \<^verbatim>\<open>pstart\<close> and \<^verbatim>\<open>pend\<close> whatever the chunk size, sets \<open>static_trip\<close> to
  \<open>-1\<close>, and returns 0 when the range is not empty and 1 when \<^verbatim>\<open>ws->next == ws->end\<close>
  (it stores the bounds then too); each of the \<open>k\<close> calls that follow returns \<open>-1\<close>
  and stores nothing.
\<close>

theorem static_next_single_thread:
  assumes "team_nthreads (team ts) = 1" and "static_trip ts \<noteq> - 1"
  shows "static_next_calls (Suc k) ts ws =
           Inr ((if ws_next ws = ws_end ws then 1 else 0, Some (ws_next ws, ws_end ws))
                  # replicate k (- 1, None),
                ts\<lparr>static_trip := - 1\<rparr>)"
proof -
  have first: "gomp_iter_static_next ts ws =
      Inr (if ws_next ws = ws_end ws then 1 else 0, ts\<lparr>static_trip := - 1\<rparr>,
           Some (ws_next ws, ws_end ws))"
    using assms by (simp add: gomp_iter_static_next_def)
  have rest: "static_next_calls k (ts\<lparr>static_trip := - 1\<rparr>) ws =
      Inr (replicate k (- 1, None), ts\<lparr>static_trip := - 1\<rparr>)"
    by (rule static_next_calls_terminal) simp
  show ?thesis by (simp add: first rest)
qed

theorem static_next_single_thread_witness:
  "team_nthreads (team (team_thread 1 0)) = 1
   \<and> static_trip (team_thread 1 0) \<noteq> - 1
   \<and> static_next_calls (Suc (Suc (Suc 0))) (team_thread 1 0) (loop_work_share 0 10 1 3)
       = Inr ([(0, Some (0, 10)), (- 1, None), (- 1, None)],
              (team_thread 1 0)\<lparr>static_trip := - 1\<rparr>)"
  using static_next_single_thread
    [of "team_thread 1 0" "Suc (Suc 0)" "loop_work_share 0 10 1 3"]
  by (simp add: team_nthreads_def team_thread_def loop_work_share_def)

text \<open>
  Claim C8. Static schedule with chunk size 0, four threads, start 0, end 10 and
  increment 1: the first call of thread 0, 1, 2 and 3 produces \<open>[0,3)\<close>, \<open>[3,6)\<close>,
  \<open>[6,9)\<close> and \<open>[9,10)\<close>, and none of the \<open>k\<close> calls that follow it produces a range
  (they return 1 for threads 0 to 2, and \<open>-1\<close> for thread 3, which holds the tail).
\<close>

theorem static_next_example_four_threads:
  "static_next_calls (Suc k) (team_thread 4 0) (loop_work_share 0 10 1 0)
     = Inr ((0, Some (0, 3)) # replicate k (1, None), (team_thread 4 0)\<lparr>static_trip := 1\<rparr>)
   \<and> static_next_calls (Suc k) (team_thread 4 1) (loop_work_share 0 10 1 0)
     = Inr ((0, Some (3, 6)) # replicate k (1, None), (team_thread 4 1)\<lparr>static_trip := 1\<rparr>)
   \<and> static_next_calls (Suc k) (team_thread 4 2) (loop_work_share 0 10 1 0)
     = Inr ((0, Some (6, 9)) # replicate k (1, None), (team_thread 4 2)\<lparr>static_trip := 1\<rparr>)
   \<and> static_next_calls (Suc k) (team_thread 4 3) (loop_work_share 0 10 1 0)
     = Inr ((0, Some (9, 10)) # replicate k (- 1, None),
            (team_thread 4 3)\<lparr>static_trip := - 1\<rparr>)"
proof -
  have t0: "gomp_iter_static_next (team_thread 4 0) (loop_work_share 0 10 1 0)
      = Inr (0, (team_thread 4 0)\<lparr>static_trip := 1\<rparr>, Some (0, 3))"
    by (simp add: team_thread_def loop_work_share_def static_eval)
  have t1: "gomp_iter_static_next (team_thread 4 1) (loop_work_share 0 10 1 0)
      = Inr (0, (team_thread 4 1)\<lparr>static_trip := 1\<rparr>, Some (3, 6))"
    by (simp add: team_thread_def loop_work_share_def static_eval)
  have t2: "gomp_iter_static_next (team_thread 4 2) (loop_work_share 0 10 1 0)
      = Inr (0, (team_thread 4 2)\<lparr>static_trip := 1\<rparr>, Some (6, 9))"
    by (simp add: team_thread_def loop_work_share_def static_eval)
  have t3: "gomp_iter_static_next (team_thread 4 3) (loop_work_share 0 10 1 0)
      = Inr (0, (team_thread 4 3)\<lparr>static_trip := - 1\<rparr>, Some (9, 10))"
    by (simp add: team_thread_def loop_work_share_def static_eval)
  have later: "static_next_calls k ((team_thread 4 i)\<lparr>static_trip := 1\<rparr>)
      (loop_work_share 0 10 1 0) = Inr (replicate k (1, None), (team_thread 4 i)\<lparr>static_trip := 1\<rparr>)"
    for i
    by (rule static_next_calls_tripped)
       (simp_all add: team_thread_def loop_work_share_def team_nthreads_def word_sless_alt)
  have last: "static_next_calls k ((team_thread 4 3)\<lparr>static_trip := - 1\<rparr>)
      (loop_work_share 0 10 1 0) = Inr (replicate k (- 1, None), (team_thread 4 3)\<lparr>static_trip := - 1\<rparr>)"
    by (rule static_next_calls_terminal) simp
  show ?thesis
    by (simp add: t0 t1 t2 t3 later last)
qed

text \<open>
  Claim C2, as the code has it. \<open>gomp_iter_static_next\<close> returns a value below 0 (it is
  \<open>-1\<close>) exactly when it is entered with \<open>static_trip = -1\<close>; such a call stores
  nothing and changes nothing. A call that returns 0 has produced a range, and with more
  than one thread every call that produces a range returns 0, the final range included:
  the range it stores ends at \<^verbatim>\<open>e0 * incr + next\<close>, and it sets \<open>static_trip\<close> to
  \<open>-1\<close> when \<^verbatim>\<open>e0 == n\<close> (the final range), and to 1 (chunk size 0) or to
  \<open>static_trip + 1\<close> otherwise; so the value below 0 comes from the call that follows
  the one which produced the final range. \<open>static_trip\<close> becomes \<open>-1\<close> only on a call
  that returns 0 and produces a range. A call that produces no range returns 1 or \<open>-1\<close>.
\<close>

theorem static_next_retval:
  assumes "gomp_iter_static_next ts ws = Inr (r, ts', out)"
  shows "(r < 0 \<longleftrightarrow> static_trip ts = - 1)
       \<and> (static_trip ts = - 1 \<longrightarrow> r = - 1 \<and> out = None \<and> ts' = ts)
       \<and> (r = 0 \<longrightarrow> out \<noteq> None)
       \<and> (out = None \<longrightarrow> r = 1 \<or> r = - 1)
       \<and> (out \<noteq> None \<and> team_nthreads (team ts) \<noteq> 1 \<longrightarrow> r = 0)
       \<and> (static_trip ts \<noteq> - 1 \<and> static_trip ts' = - 1 \<and> team_nthreads (team ts) \<noteq> 1
            \<longrightarrow> r = 0 \<and> out \<noteq> None)
       \<and> (out \<noteq> None \<and> team_nthreads (team ts) \<noteq> 1 \<longrightarrow>
            (\<exists>n ps. static_n ws = Inr n
               \<and> out = Some (ps, static_e0 ts ws n * ws_incr ws + ws_next ws)
               \<and> (static_e0 ts ws n = n \<longrightarrow> r = 0 \<and> static_trip ts' = - 1)
               \<and> ts' = ts\<lparr>static_trip :=
                     (if static_e0 ts ws n = n then - 1
                      else if ws_chunk_size ws = 0 then 1
                      else static_trip ts + 1)\<rparr>))"
proof -
  have basic: "(r < 0 \<longleftrightarrow> static_trip ts = - 1)
       \<and> (static_trip ts = - 1 \<longrightarrow> r = - 1 \<and> out = None \<and> ts' = ts)
       \<and> (r = 0 \<longrightarrow> out \<noteq> None)
       \<and> (out = None \<longrightarrow> r = 1 \<or> r = - 1)
       \<and> (out \<noteq> None \<and> team_nthreads (team ts) \<noteq> 1 \<longrightarrow> r = 0)
       \<and> (static_trip ts \<noteq> - 1 \<and> static_trip ts' = - 1 \<and> team_nthreads (team ts) \<noteq> 1
            \<longrightarrow> r = 0 \<and> out \<noteq> None)"
    using assms
    by (auto simp add: gomp_iter_static_next_def Let_def split: if_splits sum.splits)
  have final: "\<exists>n ps. static_n ws = Inr n
               \<and> out = Some (ps, static_e0 ts ws n * ws_incr ws + ws_next ws)
               \<and> (static_e0 ts ws n = n \<longrightarrow> r = 0 \<and> static_trip ts' = - 1)
               \<and> ts' = ts\<lparr>static_trip :=
                     (if static_e0 ts ws n = n then - 1
                      else if ws_chunk_size ws = 0 then 1
                      else static_trip ts + 1)\<rparr>"
    if "out \<noteq> None" and "team_nthreads (team ts) \<noteq> 1"
  proof (cases "static_n ws")
    case (Inl f)
    with assms that show ?thesis
      by (auto simp add: gomp_iter_static_next_def static_n_def Let_def split: if_splits)
  next
    case (Inr n)
    with assms that show ?thesis
      by (auto simp add: gomp_iter_static_next_def static_n_def static_e0_def ulong_div_def
            Let_def split: if_splits)
  qed
  from basic final show ?thesis by blast
qed

theorem static_next_retval_witness:
  "gomp_iter_static_next (team_thread 4 3) (loop_work_share 0 10 1 0)
     = Inr (0, (team_thread 4 3)\<lparr>static_trip := - 1\<rparr>, Some (9, 10))
   \<and> ((0::int) < 0 \<longleftrightarrow> static_trip (team_thread 4 3) = - 1)
   \<and> static_trip ((team_thread 4 3)\<lparr>static_trip := - 1\<rparr>) = - 1
   \<and> team_nthreads (team (team_thread 4 3)) \<noteq> 1
   \<and> static_n (loop_work_share 0 10 1 0) = Inr 10
   \<and> static_e0 (team_thread 4 3) (loop_work_share 0 10 1 0) 10 = 10"
proof -
  have call: "gomp_iter_static_next (team_thread 4 3) (loop_work_share 0 10 1 0)
      = Inr (0, (team_thread 4 3)\<lparr>static_trip := - 1\<rparr>, Some (9, 10))"
    by (simp add: team_thread_def loop_work_share_def static_eval)
  have n: "static_n (loop_work_share 0 10 1 0) = Inr 10"
    by (simp add: static_n_def loop_work_share_def static_eval)
  have e0: "static_e0 (team_thread 4 3) (loop_work_share 0 10 1 0) 10 = 10"
    by (simp add: static_e0_def team_thread_def loop_work_share_def static_eval)
  show ?thesis
    using static_next_retval [OF call] call n e0
    by (simp add: team_thread_def team_nthreads_def)
qed

text \<open>
  The claim as the spec words it fails on the tail of the loop of C8: thread 3 of 4
  receives \<open>[9,10)\<close>, the final range, from a call that returns 0; it is the call after
  it, which produces no range, that returns \<open>-1\<close>.
\<close>

theorem static_next_retval_counterexample:
  "gomp_iter_static_next (team_thread 4 3) (loop_work_share 0 10 1 0)
     = Inr (0, (team_thread 4 3)\<lparr>static_trip := - 1\<rparr>, Some (9, 10))
   \<and> gomp_iter_static_next ((team_thread 4 3)\<lparr>static_trip := - 1\<rparr>) (loop_work_share 0 10 1 0)
     = Inr (- 1, (team_thread 4 3)\<lparr>static_trip := - 1\<rparr>, None)"
  by (simp add: team_thread_def loop_work_share_def static_eval)

section \<open>Adaptive schedule: local work\<close>

lemma try_local_work_fails:
  "\<not> fst (gomp_iter_adaptive_try_local_work lq c) \<Longrightarrow>
   gomp_iter_adaptive_try_local_work lq c =
     (False,
      lq\<lparr>q_begin := (if 0 <s q_end lq - q_begin lq then q_begin lq + c else q_begin lq)\<rparr>,
      None)"
  by (simp add: gomp_iter_adaptive_try_local_work_def Let_def split: if_splits)

text \<open>
  With a negative chunk size the clamp of the locked branch makes \<^verbatim>\<open>size\<close> negative
  after \<^verbatim>\<open>begin\<close> has been moved: the call returns false and leaves \<^verbatim>\<open>begin\<close>
  where the first block has put it (here it wraps around to \<open>2^63 - 1\<close>).
\<close>

lemma try_local_work_negative_chunk:
  "gomp_iter_adaptive_try_local_work
     \<lparr>q_begin = - 9223372036854775807, q_end = 0, nb_exec = 0, is_init = True\<rparr> (- 2)
   = (False, \<lparr>q_begin = 9223372036854775807, q_end = 0, nb_exec = 0, is_init = True\<rparr>, None)"
  by (simp add: gomp_iter_adaptive_try_local_work_def Let_def word_sless_alt word_sle_eq)

lemma try_local_work_fails_nonneg:
  assumes "\<not> fst (gomp_iter_adaptive_try_local_work lq c)" and "0 \<le>s c"
  shows "gomp_iter_adaptive_try_local_work lq c = (False, lq, None)"
proof (cases "0 <s q_end lq - q_begin lq")
  case False
  with try_local_work_fails [OF assms(1)] show ?thesis by simp
next
  case True
  with assms(1) have "\<not> 0 <s c"
    by (simp add: gomp_iter_adaptive_try_local_work_def Let_def split: if_splits)
  with assms(2) have "c = 0" by (auto simp add: signed.le_less)
  with try_local_work_fails [OF assms(1)] show ?thesis by simp
qed

text \<open>
  Claim C5, as the code has it. When advancing \<open>begin\<close> by \<open>chunk_size\<close> gives a value
  below the deque's \<open>end\<close>, or equal to it with \<open>chunk_size > 0\<close>, the call returns true
  with the range \<open>[begin, begin + chunk_size)\<close>, leaves \<open>begin\<close> advanced and adds
  \<open>chunk_size\<close> to \<open>nb_exec\<close>. (At equality the result comes from the locked branch:
  the test of the fast branch is strict.)
\<close>

theorem adaptive_try_local_work_fits:
  assumes "q_begin lq + chunk_size \<le>s q_end lq"
    and "0 <s chunk_size \<or> q_begin lq + chunk_size <s q_end lq"
  shows "gomp_iter_adaptive_try_local_work lq chunk_size =
           (True,
            lq\<lparr>q_begin := q_begin lq + chunk_size, nb_exec := nb_exec lq + chunk_size\<rparr>,
            Some (q_begin lq, q_begin lq + chunk_size))"
proof (cases "q_begin lq + chunk_size <s q_end lq")
  case True
  then show ?thesis
    by (simp add: gomp_iter_adaptive_try_local_work_def Let_def)
next
  case False
  with assms have eq: "q_end lq = q_begin lq + chunk_size" and pos: "0 <s chunk_size"
    by (auto simp add: signed.le_less)
  show ?thesis using False pos
    by (simp add: gomp_iter_adaptive_try_local_work_def Let_def eq)
qed

theorem adaptive_try_local_work_fits_witness:
  "q_begin \<lparr>q_begin = 4, q_end = 6, nb_exec = 8, is_init = True\<rparr> + 2
     \<le>s q_end \<lparr>q_begin = 4, q_end = 6, nb_exec = 8, is_init = True\<rparr>
   \<and> (0 :: long) <s 2
   \<and> gomp_iter_adaptive_try_local_work \<lparr>q_begin = 4, q_end = 6, nb_exec = 8, is_init = True\<rparr> 2
       = (True, \<lparr>q_begin = 6, q_end = 6, nb_exec = 10, is_init = True\<rparr>, Some (4, 6))"
  using adaptive_try_local_work_fits
    [of "\<lparr>q_begin = 4, q_end = 6, nb_exec = 8, is_init = True\<rparr>" 2]
  by (simp add: word_sle_eq word_sless_alt)

text \<open>
  With \<open>chunk_size = 0\<close> and an empty deque the advanced \<open>begin\<close> is at most \<open>end\<close>,
  and the call returns false: the locked branch hands out a range only when
  \<open>size > 0\<close>.
\<close>

theorem adaptive_try_local_work_counterexample:
  "q_begin \<lparr>q_begin = 5, q_end = 5, nb_exec = 0, is_init = True\<rparr> + 0
     \<le>s q_end \<lparr>q_begin = 5, q_end = 5, nb_exec = 0, is_init = True\<rparr>
   \<and> gomp_iter_adaptive_try_local_work
        \<lparr>q_begin = 5, q_end = 5, nb_exec = 0, is_init = True\<rparr> 0
      = (False, \<lparr>q_begin = 5, q_end = 5, nb_exec = 0, is_init = True\<rparr>, None)"
  by (simp add: gomp_iter_adaptive_try_local_work_def Let_def word_sless_alt word_sle_eq)

section \<open>Adaptive schedule: no local work\<close>

text \<open>
  Claim C1, as the code has it. When a call of \<open>gomp_iter_adaptive_next\<close> finds no
  local work, it returns false at once and stores nothing: \<open>nb_iterations_left\<close> is
  not decremented, the worker's \<open>nb_exec\<close> is not reset and nothing is stolen. The
  work share is the one the worker's lazy initialisation has left (the argument itself
  when the worker was initialised), but for the \<open>begin\<close> of the worker's own deque,
  which the locked branch leaves advanced by \<open>chunk_size\<close> when the deque is not empty;
  with a chunk size that is not negative the work share is left exactly as it was.
\<close>

theorem adaptive_next_no_local_work:
  assumes "ws0 = (if \<not> is_init (adaptive_chunks ws ! unat (team_id ts))
                  then init_worker ws ts (start_t0 ws) (ws_end ws) (ws_incr ws) else ws)"
    and "lq = adaptive_chunks ws0 ! unat (team_id ts)"
    and "unat (team_id ts) < length (adaptive_chunks ws)"
    and "unat (team_id ts) < length (adaptive_chunks ws0)"
    and "\<not> fst (gomp_iter_adaptive_try_local_work lq (ws_chunk_size ws0))"
  shows "gomp_iter_adaptive_next init_worker ts ws =
           Inr (False,
                ws0\<lparr>adaptive_chunks := (adaptive_chunks ws0)
                  [unat (team_id ts) :=
                     lq\<lparr>q_begin := (if 0 <s q_end lq - q_begin lq
                                       then q_begin lq + ws_chunk_size ws0
                                       else q_begin lq)\<rparr>]\<rparr>,
                None)
       \<and> (0 \<le>s ws_chunk_size ws0 \<longrightarrow>
            gomp_iter_adaptive_next init_worker ts ws = Inr (False, ws0, None))"
proof -
  have unfolded: "gomp_iter_adaptive_next init_worker ts ws =
      (case gomp_iter_adaptive_try_local_work lq (ws_chunk_size ws0) of
         (ret, local_chunk, out) \<Rightarrow>
           if ret
           then Inr (True,
                  ws0\<lparr>adaptive_chunks := (adaptive_chunks ws0)[unat (team_id ts) := local_chunk]\<rparr>,
                  out)
           else Inr (False,
                  ws0\<lparr>adaptive_chunks := (adaptive_chunks ws0)[unat (team_id ts) := local_chunk]\<rparr>,
                  None))"
    unfolding gomp_iter_adaptive_next_def Let_def assms(1) [symmetric] assms(2) [symmetric]
    using assms(3,4) by (simp add: not_le [symmetric])
  have moved: "gomp_iter_adaptive_next init_worker ts ws =
           Inr (False,
                ws0\<lparr>adaptive_chunks := (adaptive_chunks ws0)
                  [unat (team_id ts) :=
                     lq\<lparr>q_begin := (if 0 <s q_end lq - q_begin lq
                                       then q_begin lq + ws_chunk_size ws0
                                       else q_begin lq)\<rparr>]\<rparr>,
                None)"
    unfolding unfolded by (simp only: try_local_work_fails [OF assms(5)]) simp
  have same: "gomp_iter_adaptive_next init_worker ts ws = Inr (False, ws0, None)"
    if "0 \<le>s ws_chunk_size ws0"
    unfolding unfolded
    by (simp only: try_local_work_fails_nonneg [OF assms(5) that]) (simp add: assms(2))
  from moved same show ?thesis by blast
qed

theorem adaptive_next_no_local_work_witness:
  "unat (team_id (team_thread 2 0)) < length (adaptive_chunks two_worker_share)
   \<and> \<not> fst (gomp_iter_adaptive_try_local_work
              (adaptive_chunks two_worker_share ! unat (team_id (team_thread 2 0)))
              (ws_chunk_size two_worker_share))
   \<and> 0 \<le>s ws_chunk_size two_worker_share
   \<and> gomp_iter_adaptive_next init_worker_whole (team_thread 2 0) two_worker_share
       = Inr (False, two_worker_share, None)"
proof -
  have chunk: "adaptive_chunks two_worker_share ! unat (team_id (team_thread 2 0))
      = \<lparr>q_begin = 10, q_end = 10, nb_exec = 10, is_init = True\<rparr>"
    by (simp add: two_worker_share_def team_thread_def)
  have len: "unat (team_id (team_thread 2 0)) < length (adaptive_chunks two_worker_share)"
    by (simp add: two_worker_share_def team_thread_def)
  have none: "\<not> fst (gomp_iter_adaptive_try_local_work
      (adaptive_chunks two_worker_share ! unat (team_id (team_thread 2 0)))
      (ws_chunk_size two_worker_share))"
    by (simp add: chunk)
       (simp add: two_worker_share_def gomp_iter_adaptive_try_local_work_def Let_def
          word_sless_alt)
  have init: "two_worker_share =
      (if \<not> is_init (adaptive_chunks two_worker_share ! unat (team_id (team_thread 2 0)))
       then init_worker_whole two_worker_share (team_thread 2 0)
              (start_t0 two_worker_share) (ws_end two_worker_share) (ws_incr two_worker_share)
       else two_worker_share)"
    by (simp add: chunk)
  have pos: "0 \<le>s ws_chunk_size two_worker_share"
    by (simp add: two_worker_share_def word_sle_eq)
  from adaptive_next_no_local_work
      [where ws0 = two_worker_share and ws = two_worker_share and ts = "team_thread 2 0"
         and init_worker = init_worker_whole, OF init refl len len none,
       THEN conjunct2, rule_format, OF pos]
  show ?thesis using len none pos by simp
qed

text \<open>
  The claim as the spec words it fails on that loop: the call of worker 0 returns false
  while \<open>nb_iterations_left\<close> is 20, does not subtract the worker's \<open>nb_exec\<close> from it,
  does not reset \<open>nb_exec\<close>, and takes nothing from worker 1.
\<close>

theorem adaptive_next_no_local_work_counterexample:
  "gomp_iter_adaptive_next init_worker_whole (team_thread 2 0) two_worker_share
     = Inr (False, two_worker_share, None)
   \<and> nb_iterations_left two_worker_share = 20
   \<and> nb_exec (adaptive_chunks two_worker_share ! 0) = 10
   \<and> q_begin (adaptive_chunks two_worker_share ! 1) <s q_end (adaptive_chunks two_worker_share ! 1)"
  by (simp add: gomp_iter_adaptive_next_def gomp_iter_adaptive_try_local_work_def
        two_worker_share_def team_thread_def Let_def word_sless_alt)

section \<open>Dynamic schedule: the fetch-and-add path\<close>

lemma dynamic_next_mode_cursor:
  "ws_mode ws \<Longrightarrow>
   fst (snd (gomp_iter_dynamic_next env ws)) = ws\<lparr>ws_next := ws_next ws + ws_chunk_size ws\<rparr>"
  by (simp add: gomp_iter_dynamic_next_def Let_def)

lemma dynamic_next_mode_false_iff:
  "ws_mode ws \<Longrightarrow> \<not> fst (gomp_iter_dynamic_next env ws) \<longleftrightarrow> dynamic_exhausted ws"
  by (simp add: gomp_iter_dynamic_next_def Let_def dynamic_exhausted_def)

lemma dynamic_next_mode_exhausted:
  "ws_mode ws \<Longrightarrow> dynamic_exhausted ws \<Longrightarrow>
   gomp_iter_dynamic_next env ws = (False, ws\<lparr>ws_next := ws_next ws + ws_chunk_size ws\<rparr>, None)"
  by (simp add: gomp_iter_dynamic_next_def Let_def dynamic_exhausted_def)

lemma between_in_range:
  fixes a c :: int and k :: nat
  assumes "- (2 ^ 63) \<le> a" "a < 2 ^ 63"
    and "- (2 ^ 63) \<le> a + int (Suc k) * c" "a + int (Suc k) * c < 2 ^ 63"
  shows "- (2 ^ 63) \<le> a + c \<and> a + c < 2 ^ 63"
proof (cases "0 \<le> c")
  case True
  then have "c \<le> int (Suc k) * c" by (simp add: mult_le_cancel_right1)
  with assms True show ?thesis by linarith
next
  case False
  then have "int (Suc k) * c \<le> c" by (simp add: mult_le_cancel_right2)
  with assms False show ?thesis by linarith
qed

lemma dynamic_drift:
  "ws_mode ws \<Longrightarrow> dynamic_exhausted ws \<Longrightarrow>
   (if 0 <s ws_incr ws then 0 \<le>s ws_chunk_size ws else ws_chunk_size ws \<le>s 0) \<Longrightarrow>
   - (2 ^ 63) \<le> sint (ws_next ws) + int (length envs) * sint (ws_chunk_size ws) \<Longrightarrow>
   sint (ws_next ws) + int (length envs) * sint (ws_chunk_size ws) < 2 ^ 63 \<Longrightarrow>
   dynamic_next_calls envs ws =
     (replicate (length envs) (False, None),
      ws\<lparr>ws_next := ws_next ws + of_nat (length envs) * ws_chunk_size ws\<rparr>)"
proof (induction envs arbitrary: ws)
  case Nil
  then show ?case by simp
next
  case (Cons env envs)
  let ?ws1 = "ws\<lparr>ws_next := ws_next ws + ws_chunk_size ws\<rparr>"
  have rng: "- (2 ^ 63) \<le> sint (ws_next ws) + sint (ws_chunk_size ws)
           \<and> sint (ws_next ws) + sint (ws_chunk_size ws) < 2 ^ 63"
    using between_in_range [of "sint (ws_next ws)" "length envs" "sint (ws_chunk_size ws)"]
      Cons.prems(4,5) sint_long_range [of "ws_next ws"] by simp
  then have s1: "sint (ws_next ws + ws_chunk_size ws)
      = sint (ws_next ws) + sint (ws_chunk_size ws)"
    by (simp add: sint_long_add)
  have ex1: "dynamic_exhausted ?ws1"
    using Cons.prems(2,3) s1
    by (auto simp add: dynamic_exhausted_def word_sle_eq word_sless_alt split: if_splits)
  have "dynamic_next_calls envs ?ws1 =
     (replicate (length envs) (False, None),
      ?ws1\<lparr>ws_next := ws_next ?ws1 + of_nat (length envs) * ws_chunk_size ?ws1\<rparr>)"
    using Cons.prems ex1 s1 by (intro Cons.IH) (simp_all add: algebra_simps)
  then show ?case
    using Cons.prems(1,2) by (simp add: dynamic_next_mode_exhausted algebra_simps)
qed

text \<open>
  Claim C9, as the code has it. With \<^verbatim>\<open>ws->mode\<close> set, every call of
  \<open>gomp_iter_dynamic_next\<close> leaves the work share with \<^verbatim>\<open>ws->next\<close> advanced by
  \<^verbatim>\<open>ws->chunk_size\<close> and nothing else changed, whatever it returns; so a call that
  returns false has moved the cursor when \<open>chunk_size\<close> is not 0, where the locked
  version leaves an exhausted work share as it is. From an exhausted cursor, with
  \<open>chunk_size\<close> pointing the way of \<open>incr\<close>, each further call returns false, stores
  nothing and adds \<open>chunk_size\<close> to the cursor again, as long as the cursor does not
  wrap around.
\<close>

theorem dynamic_next_mode_advances:
  assumes "ws_mode ws"
  shows "fst (snd (gomp_iter_dynamic_next env ws))
           = ws\<lparr>ws_next := ws_next ws + ws_chunk_size ws\<rparr>
       \<and> (\<not> fst (gomp_iter_dynamic_next env ws) \<and> ws_chunk_size ws \<noteq> 0
            \<longrightarrow> ws_next (fst (snd (gomp_iter_dynamic_next env ws))) \<noteq> ws_next ws
                \<and> fst (snd (gomp_iter_dynamic_next_locked (ws\<lparr>ws_next := ws_end ws\<rparr>)))
                    = ws\<lparr>ws_next := ws_end ws\<rparr>)
       \<and> (dynamic_exhausted ws
            \<and> (if 0 <s ws_incr ws then 0 \<le>s ws_chunk_size ws else ws_chunk_size ws \<le>s 0)
            \<and> - (2 ^ 63) \<le> sint (ws_next ws) + int (length envs) * sint (ws_chunk_size ws)
            \<and> sint (ws_next ws) + int (length envs) * sint (ws_chunk_size ws) < 2 ^ 63
            \<longrightarrow> dynamic_next_calls envs ws
                  = (replicate (length envs) (False, None),
                     ws\<lparr>ws_next := ws_next ws + of_nat (length envs) * ws_chunk_size ws\<rparr>))"
  using assms
  by (auto simp add: dynamic_next_mode_cursor dynamic_drift
        gomp_iter_dynamic_next_locked_def)

theorem dynamic_next_mode_advances_witness:
  "ws_mode ((loop_work_share 100 100 1 7)\<lparr>ws_mode := True\<rparr>)
   \<and> gomp_iter_dynamic_next [] ((loop_work_share 100 100 1 7)\<lparr>ws_mode := True\<rparr>)
       = (False, (loop_work_share 100 100 1 7)\<lparr>ws_mode := True, ws_next := 107\<rparr>, None)
   \<and> dynamic_exhausted ((loop_work_share 100 100 1 7)\<lparr>ws_mode := True\<rparr>)
   \<and> dynamic_next_calls ([] # [] # Nil) ((loop_work_share 100 100 1 7)\<lparr>ws_mode := True\<rparr>)
       = ([(False, None), (False, None)],
          (loop_work_share 100 100 1 7)\<lparr>ws_mode := True, ws_next := 114\<rparr>)"
proof -
  have call: "gomp_iter_dynamic_next [] ((loop_work_share 100 100 1 7)\<lparr>ws_mode := True\<rparr>)
       = (False, (loop_work_share 100 100 1 7)\<lparr>ws_mode := True, ws_next := 107\<rparr>, None)"
    by (simp add: gomp_iter_dynamic_next_def loop_work_share_def Let_def
          word_sless_alt word_sle_eq)
  have ex: "dynamic_exhausted ((loop_work_share 100 100 1 7)\<lparr>ws_mode := True\<rparr>)"
    by (simp add: dynamic_exhausted_def loop_work_share_def word_sless_alt word_sle_eq)
  show ?thesis
    using dynamic_next_mode_advances
      [of "(loop_work_share 100 100 1 7)\<lparr>ws_mode := True\<rparr>" "[]" "[] # [] # Nil"] call ex
    by (simp add: loop_work_share_def word_sless_alt word_sle_eq)
qed

text \<open>
  The claim as the spec words it fails for chunk size 0: on an exhausted cursor the
  call returns false and leaves \<^verbatim>\<open>ws->next\<close>, and the whole work share, as it was.
\<close>

theorem dynamic_next_mode_advances_counterexample:
  "ws_mode ((loop_work_share 100 100 1 0)\<lparr>ws_mode := True\<rparr>)
   \<and> gomp_iter_dynamic_next [] ((loop_work_share 100 100 1 0)\<lparr>ws_mode := True\<rparr>)
       = (False, (loop_work_share 100 100 1 0)\<lparr>ws_mode := True\<rparr>, None)"
  by (simp add: gomp_iter_dynamic_next_def loop_work_share_def Let_def
        word_sless_alt word_sle_eq)

section \<open>Guided schedule: the size of a claim\<close>

lemma cursor_ok_dir:
  "cursor_ok e i s \<Longrightarrow>
   sint i \<noteq> 0 \<and> (0 < sint i \<longrightarrow> sint s \<le> sint e) \<and> (sint i < 0 \<longrightarrow> sint e \<le> sint s)"
  by (auto simp add: cursor_ok_def word_sless_alt word_sle_eq signed_eq_0_iff
      split: if_splits)

lemma long_div_steps:
  assumes "cursor_ok e i s"
  shows "\<exists>n. long_div (e - s) i = Inr n
            \<and> uint n = \<bar>sint e - sint s\<bar> div \<bar>sint i\<bar>"
proof -
  let ?d = "sint e - sint s"
  from assms have i0: "i \<noteq> 0" and lo: "- (2 ^ 63) < ?d" and hi: "?d < 2 ^ 63"
    by (simp_all add: cursor_ok_def)
  have sd: "sint (e - s) = ?d" using lo hi by (simp add: sint_long_sub)
  have si0: "sint i \<noteq> 0" using i0 by (simp add: signed_eq_0_iff)
  have nomin: "e - s \<noteq> LONG_MIN"
  proof
    assume "e - s = LONG_MIN"
    then have "sint (e - s) = - (2 ^ 63)" by (simp add: LONG_MIN_def)
    with sd lo show False by simp
  qed
  have dir: "(0 < sint i \<longrightarrow> 0 \<le> ?d) \<and> (sint i < 0 \<longrightarrow> ?d \<le> 0)"
    using assms si0 by (auto simp add: cursor_ok_def word_sless_alt word_sle_eq split: if_splits)
  have q: "?d sdiv sint i = \<bar>?d\<bar> div \<bar>sint i\<bar>"
    using dir si0 by (cases "0 < sint i") (auto simp add: signed_divide_int_def sgn_if)
  have qr: "0 \<le> \<bar>?d\<bar> div \<bar>sint i\<bar> \<and> \<bar>?d\<bar> div \<bar>sint i\<bar> < 2 ^ 64"
  proof -
    have "\<bar>?d\<bar> div \<bar>sint i\<bar> \<le> \<bar>?d\<bar>"
      using zdiv_mono2 [of "\<bar>?d\<bar>" 1 "\<bar>sint i\<bar>"] si0 by simp
    moreover have "\<bar>?d\<bar> < 2 ^ 63" using lo hi by linarith
    moreover have "0 \<le> \<bar>?d\<bar> div \<bar>sint i\<bar>"
      using si0 by (simp add: pos_imp_zdiv_nonneg_iff)
    ultimately show ?thesis by simp
  qed
  have "long_div (e - s) i = Inr (word_of_int (\<bar>?d\<bar> div \<bar>sint i\<bar>))"
    using i0 nomin by (simp add: long_div_def sd q)
  moreover have "uint (word_of_int (\<bar>?d\<bar> div \<bar>sint i\<bar>) :: long) = \<bar>?d\<bar> div \<bar>sint i\<bar>"
    using qr by (intro uint_long_of_int) simp_all
  ultimately show ?thesis by blast
qed

lemma guided_nend_eq:
  assumes "cursor_ok e i s" and "nthr \<noteq> 0"
  shows "\<exists>n. long_div (e - s) i = Inr n
            \<and> uint n = \<bar>sint e - sint s\<bar> div \<bar>sint i\<bar>
            \<and> guided_nend nthr e i chunk s =
                Inr (let q0 = (n + nthr - 1) div nthr;
                         q = (if q0 < chunk then chunk else q0)
                     in if q \<le> n then s + q * i else e)"
proof -
  from long_div_steps [OF assms(1)] obtain n where
    n: "long_div (e - s) i = Inr n" "uint n = \<bar>sint e - sint s\<bar> div \<bar>sint i\<bar>"
    by blast
  then show ?thesis using assms(2)
    by (simp add: guided_nend_def ulong_div_def Let_def)
qed

lemma guided_step_sint:
  assumes ok: "cursor_ok e i s"
    and n: "uint n = \<bar>sint e - sint s\<bar> div \<bar>sint i\<bar>"
    and qn: "q \<le> n"
  shows "sint (s + q * i) = sint s + uint q * sint i
       \<and> uint q * \<bar>sint i\<bar> \<le> \<bar>sint e - sint s\<bar>"
proof -
  let ?d = "sint e - sint s"
  from ok have lo: "- (2 ^ 63) < ?d" and hi: "?d < 2 ^ 63"
    by (simp_all add: cursor_ok_def)
  note dir = cursor_ok_dir [OF ok]
  have q0: "0 \<le> uint q" by simp
  have "uint q \<le> uint n" using qn by (simp add: word_le_def)
  then have "uint q * \<bar>sint i\<bar> \<le> (\<bar>?d\<bar> div \<bar>sint i\<bar>) * \<bar>sint i\<bar>"
    unfolding n by (rule mult_right_mono) simp
  also have "\<dots> \<le> \<bar>?d\<bar>"
    using dir by (intro int_div_mult_le) simp
  finally have bound: "uint q * \<bar>sint i\<bar> \<le> \<bar>?d\<bar>" .
  have prod: "\<bar>uint q * sint i\<bar> = uint q * \<bar>sint i\<bar>"
    by (simp add: abs_mult)
  have step: "(0 < sint i \<longrightarrow> 0 \<le> uint q * sint i \<and> uint q * sint i \<le> ?d)
            \<and> (sint i < 0 \<longrightarrow> ?d \<le> uint q * sint i \<and> uint q * sint i \<le> 0)"
  proof (cases "0 < sint i")
    case True
    with bound dir show ?thesis by simp
  next
    case False
    with dir have neg: "sint i < 0" by simp
    then have "uint q * sint i \<le> 0" by (simp add: mult_le_0_iff)
    moreover have "uint q * \<bar>sint i\<bar> = - (uint q * sint i)" using neg by simp
    ultimately show ?thesis using bound dir neg by simp
  qed
  have m: "sint (q * i) = uint q * sint i"
    using step dir lo hi by (intro sint_long_mult_uint) linarith+
  have r: "- (2 ^ 63) \<le> sint s + sint (q * i) \<and> sint s + sint (q * i) < 2 ^ 63"
    using step dir m sint_long_range [of s] sint_long_range [of e] by linarith
  show ?thesis
    using bound m r by (simp add: sint_long_add)
qed




lemma guided_cas_loop_success:
  "guided_cas_loop nthr e i c env ws start = Inr (True, ws', out) \<Longrightarrow>
   \<exists>s nend. s \<in> set (start # env) \<and> s \<noteq> e \<and> guided_nend nthr e i c s = Inr nend
     \<and> ws' = ws\<lparr>ws_next := nend\<rparr> \<and> out = Some (s, nend)"
proof (induction env arbitrary: start)
  case Nil
  then show ?case by (auto split: if_splits sum.splits)
next
  case (Cons tmp env)
  show ?case
  proof (cases "start = e")
    case True
    with Cons.prems show ?thesis by simp
  next
    case False
    show ?thesis
    proof (cases "guided_nend nthr e i c start")
      case (Inl f)
      with Cons.prems False show ?thesis by simp
    next
      case (Inr nend)
      show ?thesis
      proof (cases "tmp = start")
        case True
        with Cons.prems False Inr show ?thesis by auto
      next
        case neq: False
        with Cons.prems False Inr
        have "guided_cas_loop nthr e i c env ws tmp = Inr (True, ws', out)" by simp
        from Cons.IH [OF this] show ?thesis by auto
      qed
    qed
  qed
qed

lemma guided_next_locked_success:
  "gomp_iter_guided_next_locked ts ws = Inr (True, ws', out) \<Longrightarrow>
   \<exists>nend. ws_next ws \<noteq> ws_end ws
     \<and> guided_nend (team_nthreads (team ts)) (ws_end ws) (ws_incr ws) (ws_chunk_size ws) (ws_next ws) = Inr nend
     \<and> ws' = ws\<lparr>ws_next := nend\<rparr> \<and> out = Some (ws_next ws, nend)"
  by (auto simp add: gomp_iter_guided_next_locked_def Let_def split: if_splits sum.splits)

lemma guided_nend_nthr: "guided_nend nthr e i c s = Inr nend \<Longrightarrow> nthr \<noteq> 0"
  by (auto simp add: guided_nend_def ulong_div_def split: sum.splits if_splits)

lemma guided_success:
  assumes "gomp_iter_guided_next_locked ts ws = Inr (True, ws', out)
         \<or> gomp_iter_guided_next env ts ws = Inr (True, ws', out)"
  shows "\<exists>start nend. start \<in> set (ws_next ws # env) \<and> start \<noteq> ws_end ws
     \<and> guided_nend (team_nthreads (team ts)) (ws_end ws) (ws_incr ws) (ws_chunk_size ws) start = Inr nend
     \<and> ws' = ws\<lparr>ws_next := nend\<rparr> \<and> out = Some (start, nend)"
  using assms
proof
  assume "gomp_iter_guided_next_locked ts ws = Inr (True, ws', out)"
  from guided_next_locked_success [OF this] show ?thesis by auto
next
  assume "gomp_iter_guided_next env ts ws = Inr (True, ws', out)"
  then show ?thesis
    unfolding gomp_iter_guided_next_def by (rule guided_cas_loop_success)
qed




section \<open>Guided schedule: progress\<close>

lemma guided_nend_progress:
  assumes ok: "cursor_ok e i s" and ne: "s \<noteq> e" and t0: "nthr \<noteq> 0" and c0: "chunk \<noteq> 0"
  shows "\<exists>nend. guided_nend nthr e i chunk s = Inr nend
          \<and> cursor_ok e i nend
          \<and> (0 < sint i \<longrightarrow> sint s < sint nend \<and> sint nend \<le> sint e)
          \<and> (sint i < 0 \<longrightarrow> sint e \<le> sint nend \<and> sint nend < sint s)"
proof -
  let ?d = "sint e - sint s"
  from guided_nend_eq [OF ok t0, of chunk] obtain n where
    n: "uint n = \<bar>?d\<bar> div \<bar>sint i\<bar>"
    and g: "guided_nend nthr e i chunk s =
                Inr (let q0 = (n + nthr - 1) div nthr;
                         q = (if q0 < chunk then chunk else q0)
                     in if q \<le> n then s + q * i else e)"
    by blast
  define q where "q = (let q0 = (n + nthr - 1) div nthr in if q0 < chunk then chunk else q0)"
  have g': "guided_nend nthr e i chunk s = Inr (if q \<le> n then s + q * i else e)"
    using g by (simp add: q_def Let_def)
  note dir = cursor_ok_dir [OF ok]
  from ok have rng: "- (2 ^ 63) < ?d" "?d < 2 ^ 63" by (simp_all add: cursor_ok_def)
  have sne: "sint s \<noteq> sint e" using ne by (auto dest: signed_word_eqI)
  have "chunk \<le> q" by (simp add: q_def Let_def not_less)
  with c0 have "q \<noteq> 0" by auto
  then have q1: "1 \<le> uint q"
    using uint_ge_0 [of q] by (simp add: uint_0_iff order_less_le int_one_le_iff_zero_less)
  show ?thesis
  proof (cases "q \<le> n")
    case True
    from guided_step_sint [OF ok n True]
    have v: "sint (s + q * i) = sint s + uint q * sint i"
      and b: "uint q * \<bar>sint i\<bar> \<le> \<bar>?d\<bar>" by simp_all
    have pos: "\<bar>sint i\<bar> \<le> uint q * \<bar>sint i\<bar>"
      using q1 by (simp add: mult_le_cancel_right1)
    have adv: "(0 < sint i \<longrightarrow> sint s < sint (s + q * i) \<and> sint (s + q * i) \<le> sint e)
             \<and> (sint i < 0 \<longrightarrow> sint e \<le> sint (s + q * i) \<and> sint (s + q * i) < sint s)"
    proof (cases "0 < sint i")
      case True
      with b pos dir show ?thesis unfolding v by simp
    next
      case False
      with dir have neg: "sint i < 0" by simp
      have a: "uint q * \<bar>sint i\<bar> = - (uint q * sint i)" using neg by simp
      have "uint q * sint i \<le> 1 * sint i"
        using q1 neg by (intro mult_right_mono_neg) simp_all
      with b a dir neg show ?thesis unfolding v by linarith
    qed
    have "cursor_ok e i (s + q * i)"
      using ok adv dir rng
      by (auto simp add: cursor_ok_def word_sle_eq word_sless_alt split: if_splits)
    with adv True show ?thesis unfolding g' by simp
  next
    case False
    have "cursor_ok e i e" using ok by (simp add: cursor_ok_def)
    with False dir sne show ?thesis unfolding g' by auto
  qed
qed

lemma guided_next_locked_step:
  assumes ok: "cursor_ok (ws_end ws) (ws_incr ws) (ws_next ws)"
    and ne: "ws_next ws \<noteq> ws_end ws"
    and t0: "team_nthreads (team ts) \<noteq> 0" and c0: "ws_chunk_size ws \<noteq> 0"
  shows "\<exists>nend. gomp_iter_guided_next_locked ts ws
            = Inr (True, ws\<lparr>ws_next := nend\<rparr>, Some (ws_next ws, nend))
          \<and> cursor_ok (ws_end ws) (ws_incr ws) nend
          \<and> \<bar>sint (ws_end ws) - sint nend\<bar> < \<bar>sint (ws_end ws) - sint (ws_next ws)\<bar>"
proof -
  from guided_nend_progress [OF ok ne t0 c0] obtain nend where
    g: "guided_nend (team_nthreads (team ts)) (ws_end ws) (ws_incr ws) (ws_chunk_size ws)
          (ws_next ws) = Inr nend"
    and ok': "cursor_ok (ws_end ws) (ws_incr ws) nend"
    and adv: "0 < sint (ws_incr ws) \<longrightarrow> sint (ws_next ws) < sint nend \<and> sint nend \<le> sint (ws_end ws)"
      "sint (ws_incr ws) < 0 \<longrightarrow> sint (ws_end ws) \<le> sint nend \<and> sint nend < sint (ws_next ws)"
    by blast
  have "gomp_iter_guided_next_locked ts ws
            = Inr (True, ws\<lparr>ws_next := nend\<rparr>, Some (ws_next ws, nend))"
    using ne g by (simp add: gomp_iter_guided_next_locked_def Let_def)
  moreover have "\<bar>sint (ws_end ws) - sint nend\<bar> < \<bar>sint (ws_end ws) - sint (ws_next ws)\<bar>"
    using adv cursor_ok_dir [OF ok] by (cases "0 < sint (ws_incr ws)") auto
  ultimately show ?thesis using ok' by blast
qed

lemma guided_next_locked_at_end:
  "ws_next ws = ws_end ws \<Longrightarrow> gomp_iter_guided_next_locked ts ws = Inr (False, ws, None)"
  by (simp add: gomp_iter_guided_next_locked_def)

lemma guided_drain:
  "cursor_ok (ws_end ws) (ws_incr ws) (ws_next ws) \<Longrightarrow>
   team_nthreads (team ts) \<noteq> 0 \<Longrightarrow> ws_chunk_size ws \<noteq> 0 \<Longrightarrow>
   nat \<bar>sint (ws_end ws) - sint (ws_next ws)\<bar> \<le> k \<Longrightarrow>
   \<exists>rs. guided_next_locked_calls k ts ws = Inr (rs, ws\<lparr>ws_next := ws_end ws\<rparr>)"
proof (induction k arbitrary: ws)
  case 0
  then have "sint (ws_end ws) = sint (ws_next ws)" by simp
  then have "ws_end ws = ws_next ws" by (rule signed_word_eqI)
  then show ?case by simp
next
  case (Suc k)
  show ?case
  proof (cases "ws_next ws = ws_end ws")
    case True
    then have same: "ws\<lparr>ws_next := ws_end ws\<rparr> = ws" by simp
    have "\<exists>rs. guided_next_locked_calls k ts ws = Inr (rs, ws\<lparr>ws_next := ws_end ws\<rparr>)"
      using Suc.prems True by (intro Suc.IH) simp_all
    then show ?thesis
      using True by (auto simp add: guided_next_locked_at_end same)
  next
    case False
    from guided_next_locked_step [OF Suc.prems(1) False Suc.prems(2,3)] obtain nend where
      call: "gomp_iter_guided_next_locked ts ws
            = Inr (True, ws\<lparr>ws_next := nend\<rparr>, Some (ws_next ws, nend))"
      and ok': "cursor_ok (ws_end ws) (ws_incr ws) nend"
      and less: "\<bar>sint (ws_end ws) - sint nend\<bar> < \<bar>sint (ws_end ws) - sint (ws_next ws)\<bar>"
      by blast
    let ?ws1 = "ws\<lparr>ws_next := nend\<rparr>"
    have "\<exists>rs. guided_next_locked_calls k ts ?ws1 = Inr (rs, ?ws1\<lparr>ws_next := ws_end ?ws1\<rparr>)"
      using Suc.prems ok' less by (intro Suc.IH) simp_all
    then show ?thesis using call by auto
  qed
qed

text \<open>
  Claim C6, as the code has it. With a chunk size other than 0, every successful guided
  claim (with the lock held or by compare-and-swap) from an observed cursor value that
  has not passed the end, with \<^verbatim>\<open>end - start\<close> representable, leaves in
  \<^verbatim>\<open>ws->next\<close> a value other than the observed one, strictly past it in the
  direction of \<open>incr\<close>, and not past \<^verbatim>\<open>ws->end\<close>. Hence \<open>k\<close> consecutive calls,
  for any \<open>k\<close> that is at least the distance from the cursor to the end, return
  without trap and leave the cursor at \<^verbatim>\<open>ws->end\<close>.
\<close>

theorem guided_claim_advances:
  assumes "ws_chunk_size ws \<noteq> 0"
  shows "((gomp_iter_guided_next_locked ts ws = Inr (True, ws', Some (start, nend))
            \<or> gomp_iter_guided_next env ts ws = Inr (True, ws', Some (start, nend)))
          \<and> cursor_ok (ws_end ws) (ws_incr ws) start
          \<longrightarrow> ws_next ws' = nend \<and> nend \<noteq> start
              \<and> (0 <s ws_incr ws \<longrightarrow> start <s nend \<and> nend \<le>s ws_end ws)
              \<and> (ws_incr ws <s 0 \<longrightarrow> ws_end ws \<le>s nend \<and> nend <s start)
              \<and> cursor_ok (ws_end ws) (ws_incr ws) nend)
       \<and> (cursor_ok (ws_end ws) (ws_incr ws) (ws_next ws)
          \<and> team_nthreads (team ts) \<noteq> 0
          \<and> nat \<bar>sint (ws_end ws) - sint (ws_next ws)\<bar> \<le> k
          \<longrightarrow> (\<exists>rs. guided_next_locked_calls k ts ws = Inr (rs, ws\<lparr>ws_next := ws_end ws\<rparr>)))"
proof (intro conjI impI)
  assume a: "(gomp_iter_guided_next_locked ts ws = Inr (True, ws', Some (start, nend))
            \<or> gomp_iter_guided_next env ts ws = Inr (True, ws', Some (start, nend)))
          \<and> cursor_ok (ws_end ws) (ws_incr ws) start"
  then have ok: "cursor_ok (ws_end ws) (ws_incr ws) start" by simp
  from a guided_success [of ts ws ws' "Some (start, nend)" env]
  have ne: "start \<noteq> ws_end ws"
    and g: "guided_nend (team_nthreads (team ts)) (ws_end ws) (ws_incr ws) (ws_chunk_size ws)
              start = Inr nend"
    and w: "ws' = ws\<lparr>ws_next := nend\<rparr>"
    by auto
  from guided_nend_progress [OF ok ne guided_nend_nthr [OF g] assms] g
  have ok': "cursor_ok (ws_end ws) (ws_incr ws) nend"
    and adv: "0 < sint (ws_incr ws) \<longrightarrow> sint start < sint nend \<and> sint nend \<le> sint (ws_end ws)"
      "sint (ws_incr ws) < 0 \<longrightarrow> sint (ws_end ws) \<le> sint nend \<and> sint nend < sint start"
    by auto
  show "ws_next ws' = nend" by (simp add: w)
  show "nend \<noteq> start" using adv cursor_ok_dir [OF ok] by auto
  show "cursor_ok (ws_end ws) (ws_incr ws) nend" by (fact ok')
  { assume "0 <s ws_incr ws"
    with adv show "start <s nend" "nend \<le>s ws_end ws"
      by (simp_all add: word_sless_alt word_sle_eq) }
  { assume "ws_incr ws <s 0"
    with adv show "ws_end ws \<le>s nend" "nend <s start"
      by (simp_all add: word_sless_alt word_sle_eq) }
next
  assume "cursor_ok (ws_end ws) (ws_incr ws) (ws_next ws)
          \<and> team_nthreads (team ts) \<noteq> 0
          \<and> nat \<bar>sint (ws_end ws) - sint (ws_next ws)\<bar> \<le> k"
  then show "\<exists>rs. guided_next_locked_calls k ts ws = Inr (rs, ws\<lparr>ws_next := ws_end ws\<rparr>)"
    using assms by (intro guided_drain) simp_all
qed

theorem guided_claim_advances_witness:
  "ws_chunk_size ((loop_work_share 0 10 3 1)\<lparr>ws_next := 6\<rparr>) \<noteq> 0
   \<and> gomp_iter_guided_next_locked (team_thread 4 0) ((loop_work_share 0 10 3 1)\<lparr>ws_next := 6\<rparr>)
       = Inr (True, (loop_work_share 0 10 3 1)\<lparr>ws_next := 9\<rparr>, Some (6, 9))
   \<and> cursor_ok 10 3 6 \<and> (6 :: long) <s 9 \<and> (9 :: long) \<le>s 10 \<and> cursor_ok 10 3 9
   \<and> team_nthreads (team (team_thread 4 0)) \<noteq> 0
   \<and> nat \<bar>sint (10 :: long) - sint (6 :: long)\<bar> \<le> 4
   \<and> (\<exists>rs. guided_next_locked_calls 4 (team_thread 4 0) ((loop_work_share 0 10 3 1)\<lparr>ws_next := 6\<rparr>)
          = Inr (rs, (loop_work_share 0 10 3 1)\<lparr>ws_next := 10\<rparr>))"
proof -
  let ?ws = "(loop_work_share 0 10 3 1)\<lparr>ws_next := 6\<rparr>"
  have c: "ws_chunk_size ?ws \<noteq> 0" by (simp add: loop_work_share_def)
  have call: "gomp_iter_guided_next_locked (team_thread 4 0) ?ws
       = Inr (True, (loop_work_share 0 10 3 1)\<lparr>ws_next := 9\<rparr>, Some (6, 9))"
    by (simp add: gomp_iter_guided_next_locked_def guided_nend_def loop_work_share_def
          team_thread_def team_nthreads_def long_div_def ulong_div_def LONG_MIN_def Let_def
          signed_divide_int_def)
  have ok: "cursor_ok 10 3 6" by (simp add: cursor_ok_def word_sless_alt word_sle_eq)
  have nt: "team_nthreads (team (team_thread 4 0)) \<noteq> 0"
    by (simp add: team_thread_def team_nthreads_def)
  have d: "nat \<bar>sint (10 :: long) - sint (6 :: long)\<bar> \<le> 4" by simp
  note inst = guided_claim_advances [OF c, of "team_thread 4 0"
      "(loop_work_share 0 10 3 1)\<lparr>ws_next := 9\<rparr>" 6 9 "[]" 4]
  from inst call ok have adv: "(6 :: long) <s 9 \<and> (9 :: long) \<le>s 10 \<and> cursor_ok 10 3 9"
    by (simp add: loop_work_share_def word_sless_alt)
  from inst ok nt d
  have "\<exists>rs. guided_next_locked_calls 4 (team_thread 4 0) ?ws
          = Inr (rs, (loop_work_share 0 10 3 1)\<lparr>ws_next := 10\<rparr>)"
    by (simp add: loop_work_share_def)
  with c call ok adv nt d show ?thesis by simp
qed

text \<open>
  The claim as the spec words it fails for chunk size 0 when fewer than \<open>incr\<close> units
  are left: from cursor 9 of the loop to 10 by 3, \<open>n = 0\<close> and \<open>q = 0\<close>, and the
  successful claim hands out the empty range \<open>[9, 9)\<close> and leaves the cursor at 9,
  short of the end.
\<close>

theorem guided_claim_advances_counterexample:
  "gomp_iter_guided_next_locked (team_thread 4 0) ((loop_work_share 0 10 3 0)\<lparr>ws_next := 9\<rparr>)
     = Inr (True, (loop_work_share 0 10 3 0)\<lparr>ws_next := 9\<rparr>, Some (9, 9))
   \<and> ws_next ((loop_work_share 0 10 3 0)\<lparr>ws_next := 9\<rparr>)
       \<noteq> ws_end ((loop_work_share 0 10 3 0)\<lparr>ws_next := 9\<rparr>)"
  by (simp add: gomp_iter_guided_next_locked_def guided_nend_def loop_work_share_def
        team_thread_def team_nthreads_def long_div_def ulong_div_def LONG_MIN_def Let_def
        signed_divide_int_def)

section \<open>Well-formed ranges\<close>

lemma dynamic_clamp_ok:
  assumes ok: "cursor_ok e i s" and dv: "(sint e - sint s) mod sint i = 0"
    and ch: "chunk_pre i chunk"
  shows "chunk_pre i (dynamic_clamp i (e - s) chunk)
       \<and> range_ok i s (s + dynamic_clamp i (e - s) chunk)"
proof -
  let ?d = "sint e - sint s"
  from ok have rng: "- (2 ^ 63) < ?d" "?d < 2 ^ 63" by (simp_all add: cursor_ok_def)
  then have left: "sint (e - s) = ?d" by (simp add: sint_long_sub)
  note dir = cursor_ok_dir [OF ok]
  define c where "c = dynamic_clamp i (e - s) chunk"
  have cases: "c = chunk \<or> c = e - s"
    by (simp add: c_def dynamic_clamp_def)
  have cdv: "sint c mod sint i = 0"
    using cases ch dv left by (auto simp add: chunk_pre_def)
  have between: "(0 < sint i \<longrightarrow> 0 \<le> sint c \<and> sint c \<le> ?d)
               \<and> (sint i < 0 \<longrightarrow> ?d \<le> sint c \<and> sint c \<le> 0)"
    using ch dir left
    by (auto simp add: c_def dynamic_clamp_def chunk_pre_def word_sless_alt word_sle_eq
        split: if_splits)
  have sum: "sint (s + c) = sint s + sint c"
    using between dir sint_long_range [of s] sint_long_range [of e]
    by (intro sint_long_add) linarith+
  have "chunk_pre i c"
    using cdv between dir by (auto simp add: chunk_pre_def word_sless_alt word_sle_eq)
  moreover have "range_ok i s (s + c)"
    using cdv between dir by (auto simp add: range_ok_def word_sless_alt word_sle_eq sum)
  ultimately show ?thesis by (simp add: c_def)
qed

lemma dynamic_next_locked_range:
  assumes "gomp_iter_dynamic_next_locked ws = (True, ws', Some (ps, pe))"
    and "loop_pre ws (ws_next ws)" and "chunk_pre (ws_incr ws) (ws_chunk_size ws)"
  shows "range_ok (ws_incr ws) ps pe"
proof -
  from assms(1) have ps: "ps = ws_next ws"
    and pe: "pe = ws_next ws + dynamic_clamp (ws_incr ws) (ws_end ws - ws_next ws) (ws_chunk_size ws)"
    by (auto simp add: gomp_iter_dynamic_next_locked_def Let_def dynamic_clamp_def
        split: if_splits)
  from assms(2) dynamic_clamp_ok [of "ws_end ws" "ws_incr ws" "ws_next ws" "ws_chunk_size ws"]
    assms(3)
  show ?thesis by (simp add: ps pe loop_pre_def)
qed

lemma dynamic_cas_loop_range:
  "dynamic_cas_loop e i chunk env ws start = (True, ws', Some (ps, pe)) \<Longrightarrow>
   \<forall>v \<in> set (start # env). cursor_ok e i v \<and> (sint e - sint v) mod sint i = 0 \<Longrightarrow>
   chunk_pre i chunk \<Longrightarrow> range_ok i ps pe"
proof (induction env arbitrary: start chunk)
  case Nil
  from Nil.prems(2) have ok: "cursor_ok e i start" "(sint e - sint start) mod sint i = 0"
    by simp_all
  from Nil.prems(1) have "ps = start"
    and "pe = start + dynamic_clamp i (e - start) chunk"
    by (auto simp add: Let_def dynamic_clamp_def split: if_splits)
  with dynamic_clamp_ok [OF ok Nil.prems(3)] show ?case by simp
next
  case (Cons tmp env)
  from Cons.prems(2) have ok: "cursor_ok e i start" "(sint e - sint start) mod sint i = 0"
    by simp_all
  note cl = dynamic_clamp_ok [OF ok Cons.prems(3)]
  show ?case
  proof (cases "tmp = start")
    case True
    with Cons.prems(1) have "ps = start"
      and "pe = start + dynamic_clamp i (e - start) chunk"
      by (auto simp add: Let_def dynamic_clamp_def split: if_splits)
    with cl show ?thesis by simp
  next
    case False
    with Cons.prems(1) have
      "dynamic_cas_loop e i (dynamic_clamp i (e - start) chunk) env ws tmp
         = (True, ws', Some (ps, pe))"
      by (auto simp add: Let_def dynamic_clamp_def split: if_splits)
    moreover have "\<forall>v \<in> set (tmp # env). cursor_ok e i v \<and> (sint e - sint v) mod sint i = 0"
      using Cons.prems(2) by simp
    ultimately show ?thesis using cl by (intro Cons.IH [of "dynamic_clamp i (e - start) chunk" tmp]) simp_all
  qed
qed

lemma dynamic_next_range:
  assumes call: "gomp_iter_dynamic_next env ws = (True, ws', Some (ps, pe))"
    and pre: "\<forall>v \<in> set (ws_next ws # env). loop_pre ws v"
    and ch: "chunk_pre (ws_incr ws) (ws_chunk_size ws)"
    and fit: "ws_mode ws \<longrightarrow> - (2 ^ 63) \<le> sint (ws_next ws) + sint (ws_chunk_size ws)
                            \<and> sint (ws_next ws) + sint (ws_chunk_size ws) < 2 ^ 63"
  shows "range_ok (ws_incr ws) ps pe"
proof (cases "ws_mode ws")
  case False
  with call have "dynamic_cas_loop (ws_end ws) (ws_incr ws) (ws_chunk_size ws) env ws (ws_next ws)
      = (True, ws', Some (ps, pe))"
    by (simp add: gomp_iter_dynamic_next_def Let_def)
  moreover have "\<forall>v \<in> set (ws_next ws # env).
      cursor_ok (ws_end ws) (ws_incr ws) v \<and> (sint (ws_end ws) - sint v) mod sint (ws_incr ws) = 0"
    using pre by (simp add: loop_pre_def)
  ultimately show ?thesis
    using ch by (rule dynamic_cas_loop_range)
next
  case True
  let ?s = "ws_next ws" and ?e = "ws_end ws" and ?c = "ws_chunk_size ws" and ?i = "ws_incr ws"
  from pre have ok: "cursor_ok ?e ?i ?s" and dv: "(sint ?e - sint ?s) mod sint ?i = 0"
    by (simp_all add: loop_pre_def)
  note dir = cursor_ok_dir [OF ok]
  from fit True have sum: "sint (?s + ?c) = sint ?s + sint ?c"
    by (simp add: sint_long_add)
  from ch have cdv: "sint ?c mod sint ?i = 0"
    and csign: "(0 < sint ?i \<longrightarrow> 0 \<le> sint ?c) \<and> (sint ?i < 0 \<longrightarrow> sint ?c \<le> 0)"
    using dir by (auto simp add: chunk_pre_def word_sless_alt word_sle_eq split: if_splits)
  from call True have ps: "ps = ?s"
    and pe: "pe = (if 0 <s ?i then (if ?e <s ?s + ?c then ?e else ?s + ?c)
                   else (if ?s + ?c <s ?e then ?e else ?s + ?c))"
    by (auto simp add: gomp_iter_dynamic_next_def Let_def split: if_splits)
  have pcases: "pe = ?e \<or> pe = ?s + ?c" by (simp add: pe)
  have dvp: "(sint pe - sint ps) mod sint ?i = 0"
    using pcases dv cdv by (auto simp add: ps sum)
  have "(0 < sint ?i \<longrightarrow> sint ps \<le> sint pe) \<and> (sint ?i < 0 \<longrightarrow> sint pe \<le> sint ps)"
    using dir csign
    by (auto simp add: ps pe sum word_sless_alt word_sle_eq)
  with dvp show ?thesis
    by (simp add: range_ok_def word_sless_alt word_sle_eq)
qed

lemma steps_range_ok:
  assumes ok: "cursor_ok e i s"
    and n: "uint n = \<bar>sint e - sint s\<bar> div \<bar>sint i\<bar>"
    and le: "a \<le> b" "b \<le> n"
  shows "range_ok i (s + a * i) (s + b * i)"
proof -
  from le have an: "a \<le> n" by simp
  from guided_step_sint [OF ok n an] guided_step_sint [OF ok n le(2)]
  have va: "sint (s + a * i) = sint s + uint a * sint i"
    and vb: "sint (s + b * i) = sint s + uint b * sint i" by simp_all
  have ab: "uint a \<le> uint b" using le(1) by (simp add: word_le_def)
  have diff: "sint (s + b * i) - sint (s + a * i) = (uint b - uint a) * sint i"
    by (simp add: va vb algebra_simps)
  have "0 < sint i \<longrightarrow> uint a * sint i \<le> uint b * sint i"
    using ab by (simp add: mult_right_mono)
  moreover have "sint i < 0 \<longrightarrow> uint b * sint i \<le> uint a * sint i"
    using ab by (simp add: mult_right_mono_neg)
  ultimately show ?thesis
    unfolding range_ok_def word_sless_alt word_sle_eq diff
    by (simp add: va vb)
qed

lemma guided_nend_range:
  assumes g: "guided_nend nthr e i c s = Inr nend"
    and ok: "cursor_ok e i s" and dv: "(sint e - sint s) mod sint i = 0"
  shows "range_ok i s nend"
proof -
  from guided_nend_eq [OF ok guided_nend_nthr [OF g], of c] g obtain n q where
    n: "uint n = \<bar>sint e - sint s\<bar> div \<bar>sint i\<bar>"
    and v: "nend = (if q \<le> n then s + q * i else e)"
    by (auto simp add: Let_def)
  show ?thesis
  proof (cases "q \<le> n")
    case True
    from steps_range_ok [OF ok n _ True, of 0] v True show ?thesis by simp
  next
    case False
    with v have "nend = e" by simp
    then show ?thesis
      using dv cursor_ok_dir [OF ok]
      by (auto simp add: range_ok_def word_sless_alt word_sle_eq)
  qed
qed

lemma guided_range:
  assumes "gomp_iter_guided_next_locked ts ws = Inr (True, ws', Some (ps, pe))
         \<or> gomp_iter_guided_next env ts ws = Inr (True, ws', Some (ps, pe))"
    and "\<forall>v \<in> set (ws_next ws # env). loop_pre ws v"
  shows "range_ok (ws_incr ws) ps pe"
proof -
  from guided_success [OF assms(1)]
  have s: "ps \<in> set (ws_next ws # env)"
    and g: "guided_nend (team_nthreads (team ts)) (ws_end ws) (ws_incr ws) (ws_chunk_size ws) ps = Inr pe"
    by auto
  from assms(2) s have "loop_pre ws ps" by blast
  then show ?thesis
    using g by (intro guided_nend_range [OF g]) (simp_all add: loop_pre_def)
qed

lemma static_steps:
  assumes ok: "cursor_ok e i s" and dv: "(sint e - sint s) mod sint i = 0"
    and big: "\<bar>sint e - sint s\<bar> + \<bar>sint i\<bar> < 2 ^ 63"
  shows "\<exists>n. long_div (e - s + (i + (if 0 <s i then - 1 else 1))) i = Inr n
          \<and> uint n = \<bar>sint e - sint s\<bar> div \<bar>sint i\<bar> \<and> uint n < 2 ^ 63"
proof -
  let ?d = "sint e - sint s"
  let ?N = "\<bar>?d\<bar> div \<bar>sint i\<bar>"
  note dir = cursor_ok_dir [OF ok]
  from ok have rng: "- (2 ^ 63) < ?d" "?d < 2 ^ 63" by (simp_all add: cursor_ok_def)
  have sd: "sint (e - s) = ?d" using rng by (simp add: sint_long_sub)
  have i0: "i \<noteq> 0" using ok by (simp add: cursor_ok_def)
  have exact: "?N * \<bar>sint i\<bar> = \<bar>?d\<bar>"
  proof -
    have "sint i dvd ?d" using dv by (simp add: mod_eq_0_iff_dvd)
    then have "\<bar>sint i\<bar> dvd \<bar>?d\<bar>" by simp
    then show ?thesis by simp
  qed
  have Nb: "0 \<le> ?N \<and> ?N < 2 ^ 63"
  proof -
    have "?N \<le> \<bar>?d\<bar>" using dir by (intro int_div_le_self) simp_all
    moreover have "0 \<le> ?N" using dir by (simp add: pos_imp_zdiv_nonneg_iff)
    ultimately show ?thesis using rng by linarith
  qed
  show ?thesis
  proof (cases "0 < sint i")
    case True
    then have pos: "0 <s i" by (simp add: word_sless_alt)
    have s1: "sint (i + (- 1)) = sint i - 1"
      using True sint_long_range [of i] sint_long_add [of i "- 1"] by simp
    have x: "sint (e - s + (i + (- 1))) = ?d + sint i - 1"
      using True big dir sd s1 sint_long_add [of "e - s" "i + (- 1)"] by simp
    have "(?d + sint i - 1) div sint i = ?N"
    proof -
      have "?d + sint i - 1 = sint i * ?N + (sint i - 1)"
        using exact True dir by (simp add: algebra_simps)
      then show ?thesis
        using True by (intro int_div_pos_eq [where r = "sint i - 1"]) simp_all
    qed
    moreover have "0 \<le> ?d + sint i - 1" using True dir by simp
    ultimately have q: "(?d + sint i - 1) sdiv sint i = ?N"
      using True by (simp add: signed_divide_int_def sgn_if)
    have nomin: "e - s + (i + (- 1)) \<noteq> LONG_MIN"
    proof
      assume "e - s + (i + (- 1)) = LONG_MIN"
      then have "sint (e - s + (i + (- 1))) = sint LONG_MIN" by (rule arg_cong)
      then have "sint (e - s + (i + (- 1))) = - (2 ^ 63)" by (simp only: sint_LONG_MIN)
      with x True dir show False by simp
    qed
    have "long_div (e - s + (i + (if 0 <s i then - 1 else 1))) i = Inr (word_of_int ?N)"
      using i0 nomin pos x q by (simp add: long_div_def)
    moreover have "uint (word_of_int ?N :: long) = ?N"
      using Nb by (intro uint_long_of_int) simp_all
    ultimately show ?thesis using Nb by auto
  next
    case False
    with dir have neg: "sint i < 0" by simp
    then have npos: "\<not> 0 <s i" by (simp add: word_sless_alt)
    have s1: "sint (i + 1) = sint i + 1"
      using neg sint_long_range [of i] sint_long_add [of i 1] by simp
    have x: "sint (e - s + (i + 1)) = ?d + sint i + 1"
      using neg big dir sd s1 sint_long_add [of "e - s" "i + 1"] by simp
    have xn: "?d + sint i + 1 \<le> 0" using neg dir by simp
    have "(- (?d + sint i + 1)) div (- sint i) = ?N"
    proof -
      have "- (?d + sint i + 1) = (- sint i) * ?N + (- sint i - 1)"
        using exact neg dir by (simp add: algebra_simps)
      then show ?thesis
        using neg by (intro int_div_pos_eq [where r = "- sint i - 1"]) simp_all
    qed
    then have q: "(?d + sint i + 1) sdiv sint i = ?N"
      using neg xn by (cases "?d + sint i + 1 = 0") (simp_all add: signed_divide_int_def sgn_if)
    have nomin: "e - s + (i + 1) \<noteq> LONG_MIN"
    proof
      assume "e - s + (i + 1) = LONG_MIN"
      then have "sint (e - s + (i + 1)) = sint LONG_MIN" by (rule arg_cong)
      then have "sint (e - s + (i + 1)) = - (2 ^ 63)" by (simp only: sint_LONG_MIN)
      with x neg dir big show False by simp
    qed
    have "long_div (e - s + (i + (if 0 <s i then - 1 else 1))) i = Inr (word_of_int ?N)"
      using i0 nomin npos x q by (simp add: long_div_def)
    moreover have "uint (word_of_int ?N :: long) = ?N"
      using Nb by (intro uint_long_of_int) simp_all
    ultimately show ?thesis using Nb by auto
  qed
qed

lemma static_next_points:
  assumes call: "gomp_iter_static_next ts ws = Inr (r, ts', Some (ps, pe))"
    and n1: "team_nthreads (team ts) \<noteq> 1"
    and n: "long_div (ws_end ws - ws_next ws + (ws_incr ws + (if 0 <s ws_incr ws then - 1 else 1)))
              (ws_incr ws) = Inr n"
    and nb: "uint n < 2 ^ 63" and ch: "0 \<le>s ws_chunk_size ws"
  shows "\<exists>a b. a \<le> b \<and> b \<le> n \<and> ps = ws_next ws + a * ws_incr ws
            \<and> pe = ws_next ws + b * ws_incr ws"
proof (cases "ws_chunk_size ws = 0")
  case True
  define q where "q = n div team_nthreads (team ts)
      + (if n div team_nthreads (team ts) * team_nthreads (team ts) \<noteq> n then 1 else 0)"
  define s0 where "s0 = q * team_id ts"
  define e0 where "e0 = (if n < s0 + q then n else s0 + q)"
  have e0n: "e0 \<le> n" by (simp add: e0_def not_less)
  from call n1 True n have "\<not> e0 \<le> s0 \<and> ps = s0 * ws_incr ws + ws_next ws
      \<and> pe = e0 * ws_incr ws + ws_next ws"
    by (simp add: gomp_iter_static_next_def Let_def ulong_div_def q_def s0_def e0_def
        split: if_splits)
  then have "s0 \<le> e0 \<and> ps = ws_next ws + s0 * ws_incr ws \<and> pe = ws_next ws + e0 * ws_incr ws"
    by (simp add: add.commute not_le less_imp_le)
  with e0n show ?thesis by blast
next
  case False
  define c where "c = ws_chunk_size ws"
  define s0 where "s0 = (static_trip ts * team_nthreads (team ts) + team_id ts) * c"
  define e0 where "e0 = (if n < s0 + c then n else s0 + c)"
  have e0n: "e0 \<le> n" by (simp add: e0_def not_less)
  from call n1 False n have *: "\<not> n \<le> s0 \<and> ps = s0 * ws_incr ws + ws_next ws
      \<and> pe = e0 * ws_incr ws + ws_next ws"
    by (simp add: gomp_iter_static_next_def Let_def c_def s0_def e0_def
        split: if_splits)
  then have "s0 < n" by (simp add: not_le)
  then have "uint s0 < 2 ^ 63" using nb by (simp add: word_less_def)
  moreover have "uint c < 2 ^ 63" unfolding c_def using ch by (rule uint_nonneg_signed)
  ultimately have "s0 \<le> s0 + c" by (rule long_add_no_wrap)
  with \<open>s0 < n\<close> have "s0 \<le> e0" by (simp add: e0_def less_imp_le)
  with * have "s0 \<le> e0 \<and> ps = ws_next ws + s0 * ws_incr ws \<and> pe = ws_next ws + e0 * ws_incr ws"
    by (simp add: add.commute)
  with e0n show ?thesis by blast
qed

lemma static_next_range:
  assumes call: "gomp_iter_static_next ts ws = Inr (r, ts', Some (ps, pe))"
    and pre: "loop_pre ws (ws_next ws)"
    and big: "\<bar>sint (ws_end ws) - sint (ws_next ws)\<bar> + \<bar>sint (ws_incr ws)\<bar> < 2 ^ 63"
    and ch: "0 \<le>s ws_chunk_size ws"
  shows "range_ok (ws_incr ws) ps pe"
proof (cases "team_nthreads (team ts) = 1")
  case True
  with call have "ps = ws_next ws" "pe = ws_end ws"
    by (auto simp add: gomp_iter_static_next_def Let_def split: if_splits)
  then show ?thesis
    using pre cursor_ok_dir [of "ws_end ws" "ws_incr ws" "ws_next ws"]
    by (auto simp add: loop_pre_def range_ok_def word_sless_alt word_sle_eq)
next
  case False
  from pre have ok: "cursor_ok (ws_end ws) (ws_incr ws) (ws_next ws)"
    and dv: "(sint (ws_end ws) - sint (ws_next ws)) mod sint (ws_incr ws) = 0"
    by (simp_all add: loop_pre_def)
  from static_steps [OF ok dv big] obtain n where
    n: "long_div (ws_end ws - ws_next ws + (ws_incr ws + (if 0 <s ws_incr ws then - 1 else 1)))
              (ws_incr ws) = Inr n"
    and un: "uint n = \<bar>sint (ws_end ws) - sint (ws_next ws)\<bar> div \<bar>sint (ws_incr ws)\<bar>"
    and nb: "uint n < 2 ^ 63"
    by blast
  from static_next_points [OF call False n nb ch] obtain a b where
    "a \<le> b" "b \<le> n" "ps = ws_next ws + a * ws_incr ws" "pe = ws_next ws + b * ws_incr ws"
    by blast
  with steps_range_ok [OF ok un, of a b] show ?thesis by simp
qed

text \<open>
  Claim C3, as the code has it. Every call of the static, dynamic or guided iterators
  that produces a range produces a well-formed one: \<open>pstart \<le> pend\<close> when \<open>incr > 0\<close>,
  \<open>pend \<le> pstart\<close> when \<open>incr < 0\<close>, and \<open>pend - pstart\<close> a multiple of \<open>incr\<close>,
  provided that, at every cursor value the call observes (\<open>loop_pre\<close>), \<open>incr\<close> is
  not 0, the bounds are not inverted, and \<^verbatim>\<open>end - next\<close> is a multiple of \<open>incr\<close> and
  representable in a \<^verbatim>\<open>long\<close>. For the dynamic schedule the chunk field is a multiple
  of \<open>incr\<close> pointing the same way (\<open>chunk_pre\<close>), and on the fetch-and-add path
  \<^verbatim>\<open>next + chunk\<close> is representable. For the static schedule the chunk field, a count
  of iterations, is not negative, and \<^verbatim>\<open>end - next + incr\<close> is representable. The
  guided schedule needs nothing of its chunk field.
\<close>

theorem ranges_well_formed:
  "(gomp_iter_static_next ts ws = Inr (r, ts', Some (ps, pe))
      \<and> loop_pre ws (ws_next ws)
      \<and> \<bar>sint (ws_end ws) - sint (ws_next ws)\<bar> + \<bar>sint (ws_incr ws)\<bar> < 2 ^ 63
      \<and> 0 \<le>s ws_chunk_size ws
    \<longrightarrow> range_ok (ws_incr ws) ps pe)
 \<and> (gomp_iter_dynamic_next_locked ws = (True, ws', Some (ps, pe))
      \<and> loop_pre ws (ws_next ws)
      \<and> chunk_pre (ws_incr ws) (ws_chunk_size ws)
    \<longrightarrow> range_ok (ws_incr ws) ps pe)
 \<and> (gomp_iter_dynamic_next env ws = (True, ws', Some (ps, pe))
      \<and> (\<forall>v \<in> set (ws_next ws # env). loop_pre ws v)
      \<and> chunk_pre (ws_incr ws) (ws_chunk_size ws)
      \<and> (ws_mode ws \<longrightarrow> - (2 ^ 63) \<le> sint (ws_next ws) + sint (ws_chunk_size ws)
                        \<and> sint (ws_next ws) + sint (ws_chunk_size ws) < 2 ^ 63)
    \<longrightarrow> range_ok (ws_incr ws) ps pe)
 \<and> (gomp_iter_guided_next_locked ts ws = Inr (True, ws', Some (ps, pe))
      \<and> loop_pre ws (ws_next ws)
    \<longrightarrow> range_ok (ws_incr ws) ps pe)
 \<and> (gomp_iter_guided_next env ts ws = Inr (True, ws', Some (ps, pe))
      \<and> (\<forall>v \<in> set (ws_next ws # env). loop_pre ws v)
    \<longrightarrow> range_ok (ws_incr ws) ps pe)"
proof (intro conjI impI)
  assume "gomp_iter_static_next ts ws = Inr (r, ts', Some (ps, pe))
      \<and> loop_pre ws (ws_next ws)
      \<and> \<bar>sint (ws_end ws) - sint (ws_next ws)\<bar> + \<bar>sint (ws_incr ws)\<bar> < 2 ^ 63
      \<and> 0 \<le>s ws_chunk_size ws"
  then show "range_ok (ws_incr ws) ps pe"
    using static_next_range [of ts ws r ts' ps pe] by blast
next
  assume "gomp_iter_dynamic_next_locked ws = (True, ws', Some (ps, pe))
      \<and> loop_pre ws (ws_next ws)
      \<and> chunk_pre (ws_incr ws) (ws_chunk_size ws)"
  then show "range_ok (ws_incr ws) ps pe"
    using dynamic_next_locked_range [of ws ws' ps pe] by blast
next
  assume "gomp_iter_dynamic_next env ws = (True, ws', Some (ps, pe))
      \<and> (\<forall>v \<in> set (ws_next ws # env). loop_pre ws v)
      \<and> chunk_pre (ws_incr ws) (ws_chunk_size ws)
      \<and> (ws_mode ws \<longrightarrow> - (2 ^ 63) \<le> sint (ws_next ws) + sint (ws_chunk_size ws)
                        \<and> sint (ws_next ws) + sint (ws_chunk_size ws) < 2 ^ 63)"
  then show "range_ok (ws_incr ws) ps pe"
    using dynamic_next_range [of env ws ws' ps pe] by blast
next
  assume a: "gomp_iter_guided_next_locked ts ws = Inr (True, ws', Some (ps, pe))
      \<and> loop_pre ws (ws_next ws)"
  then have "\<forall>v \<in> set (ws_next ws # []). loop_pre ws v" by simp
  with a show "range_ok (ws_incr ws) ps pe"
    using guided_range [of ts ws ws' ps pe "[]"] by blast
next
  assume "gomp_iter_guided_next env ts ws = Inr (True, ws', Some (ps, pe))
      \<and> (\<forall>v \<in> set (ws_next ws # env). loop_pre ws v)"
  then show "range_ok (ws_incr ws) ps pe"
    using guided_range [of ts ws ws' ps pe env] by blast
qed

lemmas run_simps =
  gomp_iter_static_next_def gomp_iter_dynamic_next_locked_def gomp_iter_dynamic_next_def
  gomp_iter_guided_next_locked_def gomp_iter_guided_next_def guided_nend_def
  loop_work_share_def team_thread_def team_nthreads_def long_div_def ulong_div_def
  LONG_MIN_def Let_def signed_divide_int_def word_sless_alt word_sle_eq

theorem ranges_well_formed_witness:
  "loop_pre (loop_work_share 0 10 2 4) 0
   \<and> \<bar>sint (10 :: long) - sint (0 :: long)\<bar> + \<bar>sint (2 :: long)\<bar> < 2 ^ 63
   \<and> (0 :: long) \<le>s 4
   \<and> chunk_pre 2 4
   \<and> gomp_iter_static_next (team_thread 2 1) (loop_work_share 0 10 2 4)
       = Inr (0, (team_thread 2 1)\<lparr>static_trip := - 1\<rparr>, Some (8, 10))
   \<and> range_ok 2 8 10
   \<and> gomp_iter_dynamic_next_locked (loop_work_share 0 10 2 4)
       = (True, (loop_work_share 0 10 2 4)\<lparr>ws_next := 4\<rparr>, Some (0, 4))
   \<and> gomp_iter_dynamic_next [] (loop_work_share 0 10 2 4)
       = (True, (loop_work_share 0 10 2 4)\<lparr>ws_next := 4\<rparr>, Some (0, 4))
   \<and> range_ok 2 0 4
   \<and> gomp_iter_guided_next_locked (team_thread 2 1) (loop_work_share 0 10 2 4)
       = Inr (True, (loop_work_share 0 10 2 4)\<lparr>ws_next := 8\<rparr>, Some (0, 8))
   \<and> gomp_iter_guided_next [] (team_thread 2 1) (loop_work_share 0 10 2 4)
       = Inr (True, (loop_work_share 0 10 2 4)\<lparr>ws_next := 8\<rparr>, Some (0, 8))
   \<and> range_ok 2 0 8"
proof -
  let ?ws = "loop_work_share 0 10 2 4" and ?ts = "team_thread 2 1"
  have pre: "loop_pre ?ws 0"
    by (simp add: loop_pre_def cursor_ok_def loop_work_share_def word_sless_alt word_sle_eq)
  have pre': "\<forall>v \<in> set (ws_next ?ws # []). loop_pre ?ws v"
    using pre by (simp add: loop_work_share_def)
  have big: "\<bar>sint (10 :: long) - sint (0 :: long)\<bar> + \<bar>sint (2 :: long)\<bar> < 2 ^ 63" by simp
  have c0: "(0 :: long) \<le>s 4" by (simp add: word_sle_eq)
  have ch: "chunk_pre 2 4" by (simp add: chunk_pre_def word_sless_alt word_sle_eq)
  have st: "gomp_iter_static_next ?ts ?ws
       = Inr (0, ?ts\<lparr>static_trip := - 1\<rparr>, Some (8, 10))"
    by (simp add: run_simps)
  have dl: "gomp_iter_dynamic_next_locked ?ws = (True, ?ws\<lparr>ws_next := 4\<rparr>, Some (0, 4))"
    by (simp add: run_simps)
  have dn: "gomp_iter_dynamic_next [] ?ws = (True, ?ws\<lparr>ws_next := 4\<rparr>, Some (0, 4))"
    by (simp add: run_simps)
  have gl: "gomp_iter_guided_next_locked ?ts ?ws = Inr (True, ?ws\<lparr>ws_next := 8\<rparr>, Some (0, 8))"
    by (simp add: run_simps)
  have gn: "gomp_iter_guided_next [] ?ts ?ws = Inr (True, ?ws\<lparr>ws_next := 8\<rparr>, Some (0, 8))"
    by (simp add: run_simps)
  have r1: "range_ok 2 8 10"
    using ranges_well_formed [of ?ts ?ws 0 "?ts\<lparr>static_trip := - 1\<rparr>" 8 10, THEN conjunct1]
      st pre big c0 by (simp add: loop_work_share_def)
  have r2: "range_ok 2 0 4"
    using ranges_well_formed [of _ ?ws _ _ 0 4 "?ws\<lparr>ws_next := 4\<rparr>" "[]",
        THEN conjunct2, THEN conjunct1]
      ranges_well_formed [of _ ?ws _ _ 0 4 "?ws\<lparr>ws_next := 4\<rparr>" "[]",
        THEN conjunct2, THEN conjunct2, THEN conjunct1]
      dl dn pre pre' ch by (simp add: loop_work_share_def)
  have r3: "range_ok 2 0 8"
    using ranges_well_formed [of ?ts ?ws _ _ 0 8 "?ws\<lparr>ws_next := 8\<rparr>" "[]",
        THEN conjunct2, THEN conjunct2, THEN conjunct2, THEN conjunct1]
      ranges_well_formed [of ?ts ?ws _ _ 0 8 "?ws\<lparr>ws_next := 8\<rparr>" "[]",
        THEN conjunct2, THEN conjunct2, THEN conjunct2, THEN conjunct2]
      gl gn pre pre' by (simp add: loop_work_share_def)
  from pre big c0 ch st dl dn gl gn r1 r2 r3 show ?thesis by simp
qed

text \<open>
  The three preconditions the claim lists do not suffice. In the static schedule of the
  loop from 0 to \<open>2^63 - 2\<close> by 3 (a multiple of 3, bounds in order, chunk size 0),
  \<^verbatim>\<open>end - next + s\<close> is \<open>2^63\<close> and wraps around: thread 0 of 2 receives
  \<open>[0, 4611686018427387905)\<close>, whose length leaves remainder 2.
\<close>

theorem ranges_well_formed_counterexample:
  "ws_incr (loop_work_share 0 9223372036854775806 3 0) \<noteq> 0
   \<and> (sint (ws_end (loop_work_share 0 9223372036854775806 3 0))
        - sint (ws_next (loop_work_share 0 9223372036854775806 3 0)))
       mod sint (ws_incr (loop_work_share 0 9223372036854775806 3 0)) = 0
   \<and> sint (ws_chunk_size (loop_work_share 0 9223372036854775806 3 0))
       mod sint (ws_incr (loop_work_share 0 9223372036854775806 3 0)) = 0
   \<and> gomp_iter_static_next (team_thread 2 0) (loop_work_share 0 9223372036854775806 3 0)
       = Inr (0, (team_thread 2 0)\<lparr>static_trip := 1\<rparr>, Some (0, 4611686018427387905))
   \<and> \<not> range_ok 3 0 4611686018427387905"
  by (simp add: team_thread_def loop_work_share_def range_ok_def static_eval)

end
